theory Spec2Isabelle
  imports Main
begin

section \<open>Python strings and integers\<close>

text \<open>
  A Python \<open>str\<close> is modelled as a HOL \<open>string\<close>, one \<open>char\<close> per code point, so the
  model covers the documents and file names whose code points are below 256. The
  character classes below are the ones Python 3 uses for \<open>str\<close> on that range:
  \<open>str.isspace\<close> and the regular expression class \<open>\s\<close> agree, \<open>\d\<close> is the ten ASCII
  digits, and \<open>\w\<close> is \<open>str.isalnum\<close> together with the underscore.
\<close>

definition code :: "char \<Rightarrow> nat" where
  "code c = of_char c"

definition is_space :: "char \<Rightarrow> bool" where
  "is_space c = ((9 \<le> code c \<and> code c \<le> 13) \<or> (28 \<le> code c \<and> code c \<le> 32)
                 \<or> code c = 133 \<or> code c = 160)"

definition is_digit :: "char \<Rightarrow> bool" where
  "is_digit c = (48 \<le> code c \<and> code c \<le> 57)"

definition is_alnum :: "char \<Rightarrow> bool" where
  "is_alnum c = (is_digit c \<or> (65 \<le> code c \<and> code c \<le> 90) \<or> (97 \<le> code c \<and> code c \<le> 122)
                 \<or> code c = 170 \<or> code c = 178 \<or> code c = 179 \<or> code c = 181
                 \<or> code c = 185 \<or> code c = 186 \<or> code c = 188 \<or> code c = 189 \<or> code c = 190
                 \<or> (192 \<le> code c \<and> code c \<le> 214) \<or> (216 \<le> code c \<and> code c \<le> 246)
                 \<or> 248 \<le> code c)"

definition is_word :: "char \<Rightarrow> bool" where
  "is_word c = (is_alnum c \<or> c = CHR ''_'')"

definition not_newline :: "char \<Rightarrow> bool" where
  "not_newline c = (c \<noteq> CHR 0x0A)"

text \<open>\<open>s.strip()\<close>, \<open>s.lstrip('.')\<close>, \<open>s.startswith(p)\<close> and \<open>s.lower()\<close>.\<close>

definition py_strip :: "string \<Rightarrow> string" where
  "py_strip s = rev (dropWhile is_space (rev (dropWhile is_space s)))"

definition py_lstrip_chr :: "char \<Rightarrow> string \<Rightarrow> string" where
  "py_lstrip_chr c s = dropWhile (\<lambda>x. x = c) s"

definition startswith :: "string \<Rightarrow> string \<Rightarrow> bool" where
  "startswith s p = (take (length p) s = p)"

definition lower_chr :: "char \<Rightarrow> char" where
  "lower_chr c = (if (65 \<le> code c \<and> code c \<le> 90) \<or> (192 \<le> code c \<and> code c \<le> 214)
                     \<or> (216 \<le> code c \<and> code c \<le> 222)
                  then char_of (code c + 32) else c)"

definition py_lower :: "string \<Rightarrow> string" where
  "py_lower s = map lower_chr s"

text \<open>\<open>s.split(sep)\<close> for a one-character separator, and \<open>sep.join(xs)\<close>.\<close>

fun py_split :: "char \<Rightarrow> string \<Rightarrow> string list" where
  "py_split sep [] = [[]]"
| "py_split sep (c # cs) =
     (if c = sep then [] # py_split sep cs
      else (case py_split sep cs of [] \<Rightarrow> [[c]] | p # ps \<Rightarrow> (c # p) # ps))"

fun py_join :: "string \<Rightarrow> string list \<Rightarrow> string" where
  "py_join sep [] = []"
| "py_join sep [x] = x"
| "py_join sep (x # y # ys) = x @ sep @ py_join sep (y # ys)"

text \<open>
  \<open>int(s)\<close>: surrounding whitespace is dropped, one sign is allowed, and the digits may
  be grouped by single underscores; anything else raises \<open>ValueError\<close>, here \<open>None\<close>.
  The interpreter's optional cap on the number of digits of a decimal literal is not
  modelled: integers are unbounded.
\<close>

datatype py_error = ValueError | AttributeError

definition digit_val :: "char \<Rightarrow> nat" where
  "digit_val c = code c - 48"

definition dec_value :: "string \<Rightarrow> nat" where
  "dec_value ds = foldl (\<lambda>a c. 10 * a + digit_val c) 0 ds"

fun int_body_ok :: "string \<Rightarrow> bool" where
  "int_body_ok [] = False"
| "int_body_ok [c] = is_digit c"
| "int_body_ok (c # d # r) =
     (is_digit c \<and> (if d = CHR ''_'' then int_body_ok r else int_body_ok (d # r)))"

definition py_int :: "string \<Rightarrow> int option" where
  "py_int s =
     (let t = py_strip s;
          neg = (t \<noteq> [] \<and> hd t = CHR ''-'');
          body = (if t \<noteq> [] \<and> (hd t = CHR ''-'' \<or> hd t = CHR ''+'') then tl t else t)
      in if int_body_ok body
         then Some ((if neg then - 1 else 1) * int (dec_value (filter (\<lambda>c. c \<noteq> CHR ''_'') body)))
         else None)"

section \<open>Regular expressions with backtracking\<close>

text \<open>
  The patterns of the source need literal characters, character classes, sequence,
  alternation, the greedy quantifiers \<open>?\<close>, \<open>*\<close> and \<open>+\<close> and the lazy \<open>+?\<close> on a class,
  capture groups and the anchors \<open>^\<close> and \<open>$\<close>. A matcher state is the text before the
  current position, the text after it, and the groups captured so far (latest first).
  \<open>run\<close> lists the states in which a pattern can end, in the order in which Python's
  backtracking matcher tries them: the head of the list is the match it reports.
\<close>

datatype re =
    Eps
  | Cls "char \<Rightarrow> bool"
  | Seq re re
  | Alt re re
  | Opt re
  | Star "char \<Rightarrow> bool"
  | Plus "char \<Rightarrow> bool"
  | LazyPlus "char \<Rightarrow> bool"
  | Group nat re
  | Bol
  | Eol

type_synonym mstate = "string \<times> string \<times> (nat \<times> string) list"

fun run :: "re \<Rightarrow> mstate \<Rightarrow> mstate list" where
  "run Eps st = [st]"
| "run (Cls P) (d, r, g) = (case r of [] \<Rightarrow> [] | c # cs \<Rightarrow> if P c then [(d @ [c], cs, g)] else [])"
| "run (Seq a b) st = concat (map (run b) (run a st))"
| "run (Alt a b) st = run a st @ run b st"
| "run (Opt a) st = run a st @ [st]"
| "run (Star P) (d, r, g) =
     map (\<lambda>k. (d @ take k r, drop k r, g)) (rev [0..<Suc (length (takeWhile P r))])"
| "run (Plus P) (d, r, g) =
     map (\<lambda>k. (d @ take k r, drop k r, g)) (rev [1..<Suc (length (takeWhile P r))])"
| "run (LazyPlus P) (d, r, g) =
     map (\<lambda>k. (d @ take k r, drop k r, g)) [1..<Suc (length (takeWhile P r))]"
| "run (Group n a) (d, r, g) =
     map (\<lambda>(d', r', g'). (d', r', (n, drop (length d) d') # g')) (run a (d, r, g))"
| "run Bol (d, r, g) = (if d = [] then [(d, r, g)] else [])"
| "run Eol (d, r, g) = (if r = [] \<or> r = [CHR 0x0A] then [(d, r, g)] else [])"

definition chr :: "char \<Rightarrow> re" where
  "chr c = Cls (\<lambda>x. x = c)"

definition ichr :: "char \<Rightarrow> re" where
  "ichr c = Cls (\<lambda>x. lower_chr x = lower_chr c)"

definition seqs :: "re list \<Rightarrow> re" where
  "seqs rs = foldr Seq rs Eps"

definition alts :: "re list \<Rightarrow> re" where
  "alts rs = foldr Alt rs (Cls (\<lambda>x. False))"

definition lit :: "string \<Rightarrow> re" where
  "lit s = seqs (map chr s)"

definition ilit :: "string \<Rightarrow> re" where
  "ilit s = seqs (map ichr s)"

text \<open>\<open>m.group(n)\<close>, \<open>m.end()\<close> seen as the text left over, \<open>pattern.match(s)\<close> and
  \<open>re.search(pattern, s)\<close>, which tries the start positions from left to right.\<close>

definition m_group :: "mstate \<Rightarrow> nat \<Rightarrow> string option" where
  "m_group st n = map_of (snd (snd st)) n"

definition rest_of :: "mstate \<Rightarrow> string" where
  "rest_of st = fst (snd st)"

definition re_match :: "re \<Rightarrow> string \<Rightarrow> mstate option" where
  "re_match p s = (case run p ([], s, []) of [] \<Rightarrow> None | st # _ \<Rightarrow> Some st)"

fun search_from :: "re \<Rightarrow> string \<Rightarrow> string \<Rightarrow> mstate option" where
  "search_from p d [] = (case run p (d, [], []) of [] \<Rightarrow> None | st # _ \<Rightarrow> Some st)"
| "search_from p d (c # cs) =
     (case run p (d, c # cs, []) of [] \<Rightarrow> search_from p (d @ [c]) cs | st # _ \<Rightarrow> Some st)"

definition re_search :: "re \<Rightarrow> string \<Rightarrow> mstate option" where
  "re_search p s = search_from p [] s"

section \<open>Calendar dates and \<open>datetime.strptime\<close>\<close>

text \<open>
  \<open>datetime.strptime(s, fmt).date()\<close> for the three formats the source uses, in the C
  locale. As in the library, the format becomes a regular expression that is matched
  without regard to case at the start of \<open>s\<close>; text left over, a field that is no
  number, and a day the month does not have all raise \<open>ValueError\<close>. The weekday name
  is read but never compared with the date.
\<close>

record date =
  year :: int
  month :: int
  day :: int

definition is_leap :: "int \<Rightarrow> bool" where
  "is_leap y = (y mod 4 = 0 \<and> (y mod 100 \<noteq> 0 \<or> y mod 400 = 0))"

definition days_in_month :: "int \<Rightarrow> int \<Rightarrow> int" where
  "days_in_month y m =
     (if m = 2 then (if is_leap y then 29 else 28)
      else if m = 4 \<or> m = 6 \<or> m = 9 \<or> m = 11 then 30 else 31)"

definition valid_date :: "int \<Rightarrow> int \<Rightarrow> int \<Rightarrow> bool" where
  "valid_date y m d = (1 \<le> y \<and> y \<le> 9999 \<and> 1 \<le> m \<and> m \<le> 12 \<and> 1 \<le> d \<and> d \<le> days_in_month y m)"

definition weekday_names :: "string list" where
  "weekday_names = [''mon'', ''tue'', ''wed'', ''thu'', ''fri'', ''sat'', ''sun'']"

definition month_names :: "string list" where
  "month_names = [''jan'', ''feb'', ''mar'', ''apr'', ''may'', ''jun'',
                  ''jul'', ''aug'', ''sep'', ''oct'', ''nov'', ''dec'']"

fun index_of :: "'a \<Rightarrow> 'a list \<Rightarrow> nat option" where
  "index_of x [] = None"
| "index_of x (y # ys) = (if x = y then Some 0 else map_option Suc (index_of x ys))"

definition in_range :: "char \<Rightarrow> char \<Rightarrow> re" where
  "in_range lo hi = Cls (\<lambda>c. code lo \<le> code c \<and> code c \<le> code hi)"

definition times :: "nat \<Rightarrow> re \<Rightarrow> re" where
  "times n r = seqs (replicate n r)"

text \<open>The directives: groups 1 to 5 stand for the named groups a, b, d, Y and m.\<close>

definition dir_a :: re where
  "dir_a = Group 1 (alts (map ilit weekday_names))"

definition dir_b :: re where
  "dir_b = Group 2 (alts (map ilit month_names))"

definition dir_d :: re where
  "dir_d = Group 3 (alts [Seq (chr CHR ''3'') (in_range CHR ''0'' CHR ''1''),
                          Seq (in_range CHR ''1'' CHR ''2'') (Cls is_digit),
                          Seq (chr CHR ''0'') (in_range CHR ''1'' CHR ''9''),
                          in_range CHR ''1'' CHR ''9'',
                          Seq (chr CHR '' '') (in_range CHR ''1'' CHR ''9'')])"

definition dir_Y :: re where
  "dir_Y = Group 4 (times 4 (Cls is_digit))"

definition dir_m :: re where
  "dir_m = Group 5 (alts [Seq (chr CHR ''1'') (in_range CHR ''0'' CHR ''2''),
                          Seq (chr CHR ''0'') (in_range CHR ''1'' CHR ''9''),
                          in_range CHR ''1'' CHR ''9''])"

datatype time_format = Fmt_a_b_d_Y | Fmt_Y_m_d | Fmt_Ymd

fun format_regex :: "time_format \<Rightarrow> re" where
  "format_regex Fmt_a_b_d_Y =
     seqs [dir_a, chr CHR '','', Plus is_space, dir_b, Plus is_space, dir_d,
           chr CHR '','', Plus is_space, dir_Y]"
| "format_regex Fmt_Y_m_d = seqs [dir_Y, chr CHR ''-'', dir_m, chr CHR ''-'', dir_d]"
| "format_regex Fmt_Ymd = seqs [dir_Y, dir_m, dir_d]"

definition field_int :: "string option \<Rightarrow> int option" where
  "field_int f = (case f of None \<Rightarrow> None | Some s \<Rightarrow> py_int s)"

definition month_of :: "mstate \<Rightarrow> int option" where
  "month_of st =
     (case m_group st 2 of
        Some b \<Rightarrow> map_option (\<lambda>i. int (Suc i)) (index_of (py_lower b) month_names)
      | None \<Rightarrow> field_int (m_group st 5))"

definition strptime_date :: "string \<Rightarrow> time_format \<Rightarrow> py_error + date" where
  "strptime_date s f =
     (case re_match (format_regex f) s of
        None \<Rightarrow> Inl ValueError
      | Some st \<Rightarrow>
          if rest_of st \<noteq> [] then Inl ValueError
          else (case (field_int (m_group st 4), month_of st, field_int (m_group st 3)) of
                  (Some y, Some m, Some d) \<Rightarrow>
                    if valid_date y m d then Inr \<lparr>year = y, month = m, day = d\<rparr>
                    else Inl ValueError
                | _ \<Rightarrow> Inl ValueError))"

section \<open>The transcript parser\<close>

text \<open>
  The patterns of \<open>parse_otter_docx\<close>, written with the constructors of \<open>re\<close>:
  the three date patterns \<^verbatim>\<open>(\w+, \w+ \d+, \d{4})\<close>, \<^verbatim>\<open>(\d{4}-\d{2}-\d{2})\<close> and
  \<^verbatim>\<open>(\d{8})\<close> (lines 47 to 51), the duration pattern
  \<^verbatim>\<open>(\d+:\d+(?::\d+)?)\s*$\<close> (line 68), and the timestamp pattern
  \<^verbatim>\<open>^(.+?)?\s*(\d+:\d+(?::\d+)?)\s*$\<close> (line 92). The time token
  \<^verbatim>\<open>\d+:\d+(?::\d+)?\<close> occurs in the last two.
\<close>

definition date_patterns :: "re list" where
  "date_patterns =
     [Group 1 (seqs [Plus is_word, lit '', '', Plus is_word, chr CHR '' '', Plus is_digit,
                     lit '', '', times 4 (Cls is_digit)]),
      Group 1 (seqs [times 4 (Cls is_digit), chr CHR ''-'', times 2 (Cls is_digit),
                     chr CHR ''-'', times 2 (Cls is_digit)]),
      Group 1 (times 8 (Cls is_digit))]"

definition time_re :: re where
  "time_re = seqs [Plus is_digit, chr CHR '':'', Plus is_digit,
                   Opt (seqs [chr CHR '':'', Plus is_digit])]"

definition duration_pattern :: re where
  "duration_pattern = seqs [Group 1 time_re, Star is_space, Eol]"

definition timestamp_pattern :: re where
  "timestamp_pattern =
     seqs [Bol, Opt (Group 1 (LazyPlus not_newline)), Star is_space, Group 2 time_re,
           Star is_space, Eol]"

text \<open>The body of the \<open>try\<close> block (lines 56 to 62): the format is chosen from the
  matched text.\<close>

definition convert_date :: "mstate \<Rightarrow> py_error + date" where
  "convert_date m =
     (case m_group m 1 of
        None \<Rightarrow> Inl AttributeError
      | Some date_str \<Rightarrow>
          if CHR '','' \<in> set date_str then strptime_date date_str Fmt_a_b_d_Y
          else if CHR ''-'' \<in> set date_str then strptime_date date_str Fmt_Y_m_d
          else strptime_date date_str Fmt_Ymd)"

text \<open>The loop over the date patterns (lines 52 to 65): a pattern that does not match is
  passed over;
  one that matches and converts ends the loop; one that matches and raises is caught
  by the bare \<open>except\<close>, whose body is \<open>pass\<close>, so the loop goes on.\<close>

fun extract_date :: "re list \<Rightarrow> string \<Rightarrow> date option" where
  "extract_date [] date_line = None"
| "extract_date (pattern # rest) date_line =
     (case re_search pattern date_line of
        None \<Rightarrow> extract_date rest date_line
      | Some m \<Rightarrow>
          (case convert_date m of
             Inr d \<Rightarrow> Some d
           | Inl e \<Rightarrow> extract_date rest date_line))"

text \<open>The conversion of a split time string, written twice in the source (for the
  duration and for a timestamp): two fields are minutes and seconds, three are hours,
  minutes and seconds, and any other number of fields leaves the old value.\<close>

definition hms_seconds :: "string \<Rightarrow> int option \<Rightarrow> py_error + int option" where
  "hms_seconds time_str old =
     (let parts = py_split CHR '':'' time_str in
      if length parts = 2 then
        (case (py_int (parts ! 0), py_int (parts ! 1)) of
           (Some a, Some b) \<Rightarrow> Inr (Some (a * 60 + b))
         | _ \<Rightarrow> Inl ValueError)
      else if length parts = 3 then
        (case (py_int (parts ! 0), py_int (parts ! 1), py_int (parts ! 2)) of
           (Some a, Some b, Some c) \<Rightarrow> Inr (Some (a * 3600 + b * 60 + c))
         | _ \<Rightarrow> Inl ValueError)
      else Inr old)"

definition extract_duration :: "string \<Rightarrow> py_error + int option" where
  "extract_duration date_line =
     (case re_search duration_pattern date_line of
        None \<Rightarrow> Inr None
      | Some m \<Rightarrow>
          (case m_group m 1 of
             None \<Rightarrow> Inl AttributeError
           | Some time_str \<Rightarrow> hms_seconds time_str None))"

text \<open>The parse result and its segments. A segment is built without its end time,
  which the last pass adds.\<close>

record raw_segment =
  segment_index :: nat
  start_time :: int
  speaker :: "string option"
  seg_text :: string

record segment = raw_segment +
  end_time :: int

record transcript =
  title :: string
  recording_date :: "date option"
  duration_seconds :: "int option"
  keyword_list :: "string list"
  speakers :: "string list"
  segments :: "segment list"

text \<open>The variables of the segment loop: \<open>segments\<close>, \<open>current_speaker\<close>,
  \<open>current_start\<close>, \<open>current_text\<close> and \<open>segment_index\<close>.\<close>

record scan =
  saved :: "raw_segment list"
  current_speaker :: "string option"
  current_start :: "int option"
  current_text :: "string list"
  next_index :: nat

definition scan_init :: scan where
  "scan_init = \<lparr>saved = [], current_speaker = None, current_start = None,
                 current_text = [], next_index = 0\<rparr>"

text \<open>The segment that \<open>current_start is not None and current_text\<close> lets through.\<close>

definition pending :: "scan \<Rightarrow> raw_segment option" where
  "pending s =
     (case current_start s of
        None \<Rightarrow> None
      | Some t \<Rightarrow>
          if current_text s \<noteq> []
          then Some \<lparr>segment_index = next_index s, start_time = t,
                     speaker = current_speaker s,
                     seg_text = py_join '' '' (current_text s)\<rparr>
          else None)"

definition save_previous :: "scan \<Rightarrow> scan" where
  "save_previous s =
     (case pending s of
        None \<Rightarrow> s
      | Some seg \<Rightarrow> s\<lparr>saved := saved s @ [seg], next_index := next_index s + 1\<rparr>)"

definition set_speaker :: "string option \<Rightarrow> scan \<Rightarrow> scan" where
  "set_speaker speaker_part s =
     (case speaker_part of
        None \<Rightarrow> s
      | Some sp \<Rightarrow> if sp \<noteq> [] then s\<lparr>current_speaker := Some (py_strip sp)\<rparr> else s)"

definition scan_step :: "scan \<Rightarrow> string \<Rightarrow> py_error + scan" where
  "scan_step s para =
     (case re_match timestamp_pattern para of
        Some m \<Rightarrow>
          (let s1 = save_previous s;
               s2 = set_speaker (m_group m 1) s1
           in case m_group m 2 of
                None \<Rightarrow> Inl AttributeError
              | Some time_part \<Rightarrow>
                  (case hms_seconds time_part (current_start s2) of
                     Inl e \<Rightarrow> Inl e
                   | Inr t \<Rightarrow> Inr (s2\<lparr>current_start := t, current_text := []\<rparr>)))
      | None \<Rightarrow>
          Inr (if para \<noteq> [] \<and> \<not> startswith para ''SUMMARY'' \<and> \<not> startswith para ''SPEAKERS''
               then s\<lparr>current_text := current_text s @ [para]\<rparr> else s))"

fun scan_lines :: "scan \<Rightarrow> string list \<Rightarrow> py_error + scan" where
  "scan_lines s [] = Inr s"
| "scan_lines s (para # paras) =
     (case scan_step s para of Inl e \<Rightarrow> Inl e | Inr s' \<Rightarrow> scan_lines s' paras)"

text \<open>After the loop the last segment is appended (the index is not advanced any more).\<close>

definition last_segment :: "scan \<Rightarrow> raw_segment list" where
  "last_segment s = (case pending s of None \<Rightarrow> saved s | Some seg \<Rightarrow> saved s @ [seg])"

definition with_end :: "raw_segment \<Rightarrow> int \<Rightarrow> segment" where
  "with_end seg e = \<lparr>segment_index = segment_index seg, start_time = start_time seg,
                     speaker = speaker seg, seg_text = seg_text seg, end_time = e\<rparr>"

text \<open>The end time of the segment at position \<open>i\<close> (lines 143 to 149).
  \<open>elif result['duration_seconds']\<close> is a truth test: \<open>None\<close> and \<open>0\<close> both fail it.\<close>

definition end_of :: "int option \<Rightarrow> raw_segment list \<Rightarrow> nat \<Rightarrow> int" where
  "end_of dur segs i =
     (if i + 1 < length segs then start_time (segs ! (i + 1))
      else (case dur of
              Some v \<Rightarrow> if v \<noteq> 0 then v else start_time (segs ! i) + 30
            | None \<Rightarrow> start_time (segs ! i) + 30))"

definition add_end_times :: "int option \<Rightarrow> raw_segment list \<Rightarrow> segment list" where
  "add_end_times dur segs = map (\<lambda>i. with_end (segs ! i) (end_of dur segs i)) [0..<length segs]"

text \<open>The scan of the lines 2 to 9 for the keyword block and the speaker block.\<close>

definition split_list :: "string \<Rightarrow> string list" where
  "split_list line = map py_strip (py_split CHR '','' line)"

function header_blocks :: "string list \<Rightarrow> nat \<Rightarrow> string list \<times> string list \<Rightarrow> string list \<times> string list" where
  "header_blocks paragraphs i (kw, sp) =
     (if i < length paragraphs \<and> i < 10 then
        (if paragraphs ! i = ''SUMMARY KEYWORDS'' \<and> i + 1 < length paragraphs
         then header_blocks paragraphs (i + 2) (split_list (paragraphs ! (i + 1)), sp)
         else if paragraphs ! i = ''SPEAKERS'' \<and> i + 1 < length paragraphs
         then header_blocks paragraphs (i + 2) (kw, split_list (paragraphs ! (i + 1)))
         else header_blocks paragraphs (i + 1) (kw, sp))
      else (kw, sp))"
  by pat_completeness auto
termination
  by (relation "measure (\<lambda>(paragraphs, i, acc). 10 - i)") auto

declare header_blocks.simps [simp del]

text \<open>
  \<open>parse_otter_docx\<close>. The document is given by the texts of its paragraphs, in order,
  and \<open>stem\<close> is the stem of its path. The result is \<open>Inr None\<close> where the source returns
  \<open>None\<close>, \<open>Inr (Some t)\<close> where it returns the dictionary, and \<open>Inl e\<close> where it raises.
\<close>

definition nonempty_lines :: "string list \<Rightarrow> string list" where
  "nonempty_lines doc = map py_strip (filter (\<lambda>t. py_strip t \<noteq> []) doc)"

definition parse_otter_docx :: "string \<Rightarrow> string list \<Rightarrow> py_error + transcript option" where
  "parse_otter_docx stem doc =
     (let paragraphs = nonempty_lines doc in
      if length paragraphs < 3 then Inr None
      else
        (case (if 1 < length paragraphs then extract_duration (paragraphs ! 1) else Inr None) of
           Inl e \<Rightarrow> Inl e
         | Inr dur \<Rightarrow>
             (case scan_lines scan_init (drop 6 paragraphs) of
                Inl e \<Rightarrow> Inl e
              | Inr s \<Rightarrow>
                  Inr (Some
                    \<lparr>title = (if paragraphs \<noteq> [] then paragraphs ! 0 else stem),
                     recording_date =
                       (if 1 < length paragraphs then extract_date date_patterns (paragraphs ! 1)
                        else None),
                     duration_seconds = dur,
                     keyword_list = fst (header_blocks paragraphs 2 ([], [])),
                     speakers = snd (header_blocks paragraphs 2 ([], [])),
                     segments = add_end_times dur (last_segment s)\<rparr>))))"

section \<open>Storage keys\<close>

text \<open>\<open>s.rfind(c)\<close>, \<open>s.rsplit(c, 1)\<close>, and the \<open>suffix\<close> and \<open>stem\<close> of a path, computed
  from its last component as \<open>pathlib\<close> does: a dot that opens or closes the name starts
  no suffix.\<close>

definition rfind :: "char \<Rightarrow> string \<Rightarrow> nat option" where
  "rfind c s =
     (if c \<in> set s then Some (length s - Suc (length (takeWhile (\<lambda>x. x \<noteq> c) (rev s))))
      else None)"

definition py_rsplit1 :: "char \<Rightarrow> string \<Rightarrow> string list" where
  "py_rsplit1 c s = (case rfind c s of None \<Rightarrow> [s] | Some i \<Rightarrow> [take i s, drop (Suc i) s])"

definition py_suffix :: "string \<Rightarrow> string" where
  "py_suffix name =
     (case rfind CHR ''.'' name of
        None \<Rightarrow> []
      | Some i \<Rightarrow> if 0 < i \<and> i < length name - 1 then drop i name else [])"

definition py_stem :: "string \<Rightarrow> string" where
  "py_stem name =
     (case rfind CHR ''.'' name of
        None \<Rightarrow> name
      | Some i \<Rightarrow> if 0 < i \<and> i < length name - 1 then take i name else name)"

text \<open>\<open>re.sub(r'[^\w\-_.]', '_', s)\<close>: every character outside the class becomes an
  underscore.\<close>

definition sanitize :: "string \<Rightarrow> string" where
  "sanitize s =
     map (\<lambda>c. if is_word c \<or> c = CHR ''-'' \<or> c = CHR ''_'' \<or> c = CHR ''.'' then c
               else CHR ''_'') s"

text \<open>The key of \<open>import_otter_export\<close>, from the stem of the document's path and the
  32 hexadecimal digits of a fresh \<open>uuid4\<close>; and the key of \<open>batch_upload\<close>, from the
  name of the video file and the 32 hexadecimal digits of the MD5 digest of its path.
  Both digit strings are inputs of the model.\<close>

definition otter_s3_key :: "string \<Rightarrow> string \<Rightarrow> string" where
  "otter_s3_key filename_stem uuid_hex =
     ''audio/otter_ai/'' @ sanitize filename_stem @ ''_'' @ take 8 uuid_hex @ ''.mp3''"

definition batch_s3_key :: "string \<Rightarrow> string \<Rightarrow> string" where
  "batch_s3_key name md5_hex =
     ''videos/'' @ (py_rsplit1 CHR ''.'' (sanitize name)) ! 0 @ ''_'' @ take 8 md5_hex
       @ ''.'' @ py_lstrip_chr CHR ''.'' (py_lower (py_suffix name))"

section \<open>The import of an export directory\<close>

text \<open>The rows of the catalog. The times of a segment row are the decimal numbers
  written from the parser's integers, so they are kept as integers.\<close>

record audio_recording =
  rec_id :: nat
  filename :: string
  original_filename :: string
  s3_key :: string
  s3_bucket :: string
  file_size_bytes :: nat
  rec_duration_seconds :: "int option"
  format :: string
  rec_title :: string
  rec_recording_date :: "date option"
  rec_speakers :: "string list"
  rec_keywords :: "string list"
  persona_id :: "nat option"
  source :: string
  status :: string

record audio_segment =
  audio_id :: nat
  row_segment_index :: nat
  row_start_time :: int
  row_end_time :: int
  row_text :: string
  row_speaker :: "string option"

text \<open>
  What the import reads from outside: which audio files exist, the paragraphs of each
  document (\<open>None\<close> when opening it raises), the \<open>uuid4\<close> drawn for each document, whether
  an upload succeeds, and the file sizes. Files are named by the last component of their
  path. The database is taken to answer every query and to accept every row; a new
  recording gets the next free identifier.
\<close>

record world =
  mp3_exists :: "string \<Rightarrow> bool"
  docx_texts :: "string \<Rightarrow> string list option"
  uuid4_hex :: "string \<Rightarrow> string"
  upload_ok :: "string \<Rightarrow> string \<Rightarrow> bool"
  get_file_size :: "string \<Rightarrow> nat"

record tally =
  recordings :: "audio_recording list"
  segment_rows :: "audio_segment list"
  upload_calls :: "(string \<times> string) list"
  imported :: nat
  skipped :: nat
  errors :: nat

definition parse_file :: "world \<Rightarrow> string \<Rightarrow> transcript option" where
  "parse_file w docx_name =
     (case docx_texts w docx_name of
        None \<Rightarrow> None
      | Some doc \<Rightarrow>
          (case parse_otter_docx (py_stem docx_name) doc of
             Inl e \<Rightarrow> None
           | Inr None \<Rightarrow> None
           | Inr (Some parsed) \<Rightarrow> Some parsed))"

definition new_recording ::
  "world \<Rightarrow> nat option \<Rightarrow> tally \<Rightarrow> string \<Rightarrow> string \<Rightarrow> string \<Rightarrow> transcript \<Rightarrow> audio_recording" where
  "new_recording w persona st mp3_name safe_filename key parsed =
     \<lparr>rec_id = Suc (length (recordings st)),
      filename = safe_filename @ ''.mp3'',
      original_filename = mp3_name,
      s3_key = key,
      s3_bucket = ''mv-brain'',
      file_size_bytes = get_file_size w mp3_name,
      rec_duration_seconds = duration_seconds parsed,
      format = ''mp3'',
      rec_title = title parsed,
      rec_recording_date = recording_date parsed,
      rec_speakers = speakers parsed,
      rec_keywords = keyword_list parsed,
      persona_id = persona,
      source = ''otter_ai'',
      status = ''transcribed''\<rparr>"

definition new_segment :: "nat \<Rightarrow> segment \<Rightarrow> audio_segment" where
  "new_segment rid seg =
     \<lparr>audio_id = rid, row_segment_index = segment_index seg, row_start_time = start_time seg,
      row_end_time = end_time seg, row_text = seg_text seg, row_speaker = speaker seg\<rparr>"

text \<open>One turn of the loop over the documents of the directory.\<close>

definition import_one :: "world \<Rightarrow> nat option \<Rightarrow> bool \<Rightarrow> tally \<Rightarrow> string \<Rightarrow> tally" where
  "import_one w persona upload_audio st docx_name =
     (let filename_stem = py_stem docx_name;
          mp3_name = filename_stem @ ''.mp3''
      in if \<not> mp3_exists w mp3_name then st\<lparr>skipped := skipped st + 1\<rparr>
         else if find (\<lambda>r. original_filename r = mp3_name) (recordings st) \<noteq> None
         then st\<lparr>skipped := skipped st + 1\<rparr>
         else
           (case parse_file w docx_name of
              None \<Rightarrow> st\<lparr>errors := errors st + 1\<rparr>
            | Some parsed \<Rightarrow>
                (let safe_filename = sanitize filename_stem;
                     key = otter_s3_key filename_stem (uuid4_hex w docx_name);
                     calls = (if upload_audio then upload_calls st @ [(mp3_name, key)]
                              else upload_calls st)
                 in if upload_audio \<and> \<not> upload_ok w mp3_name key
                    then st\<lparr>upload_calls := calls, errors := errors st + 1\<rparr>
                    else
                      (let recording = new_recording w persona st mp3_name safe_filename key parsed
                       in st\<lparr>recordings := recordings st @ [recording],
                             segment_rows := segment_rows st
                                @ map (new_segment (rec_id recording)) (segments parsed),
                             upload_calls := calls,
                             imported := imported st + 1\<rparr>))))"

definition import_otter_export ::
  "world \<Rightarrow> nat option \<Rightarrow> bool \<Rightarrow> audio_recording list \<times> audio_segment list \<Rightarrow> string list \<Rightarrow> tally" where
  "import_otter_export w persona upload_audio database docx_files =
     foldl (import_one w persona upload_audio)
       \<lparr>recordings = fst database, segment_rows = snd database, upload_calls = [],
        imported = 0, skipped = 0, errors = 0\<rparr>
       docx_files"

section \<open>Notions used in the proofs\<close>

text \<open>\<open>consumed_by st x st'\<close>: from \<open>st\<close> the matcher has read exactly \<open>x\<close> and stands in
  \<open>st'\<close>. \<open>digits\<close> are the matches of \<open>\d+\<close>, and \<open>is_time\<close> the matches of the time
  token \<open>\d+:\d+(?::\d+)?\<close>.\<close>

definition consumed_by :: "mstate \<Rightarrow> string \<Rightarrow> mstate \<Rightarrow> bool" where
  "consumed_by st x st' = (fst st' = fst st @ x \<and> fst (snd st) = x @ fst (snd st'))"

definition digits :: "string \<Rightarrow> bool" where
  "digits s = (s \<noteq> [] \<and> list_all is_digit s)"

definition is_time :: "string \<Rightarrow> bool" where
  "is_time tok = (\<exists>d1 d2. digits d1 \<and> digits d2 \<and>
      (tok = d1 @ '':'' @ d2 \<or> (\<exists>d3. digits d3 \<and> tok = d1 @ '':'' @ d2 @ '':'' @ d3)))"

text \<open>The lower-case hexadecimal digits, and the characters that \<open>sanitize\<close> keeps.\<close>

definition is_hex :: "char \<Rightarrow> bool" where
  "is_hex c = (is_digit c \<or> (97 \<le> code c \<and> code c \<le> 102))"

definition safe_chr :: "char \<Rightarrow> bool" where
  "safe_chr c = (is_alnum c \<or> c = CHR ''-'' \<or> c = CHR ''_'' \<or> c = CHR ''.'')"

section \<open>Sample documents\<close>

text \<open>A well-formed export: six header lines, then labelled and bare timestamp lines.
  The line \<open>Dan Goldin  0:59\<close> is followed by no text.\<close>

definition sample_doc :: "string list" where
  "sample_doc =
     [''Weekly sync'', ''Fri, Dec 05, 2025 10:47AM - 21:01'',
      ''SUMMARY KEYWORDS'', ''ai, policy, nasa'', ''SPEAKERS'', ''Dan Goldin, Jane Doe'',
      ''Dan Goldin  0:05'', ''Good morning.'',
      ''Jane Doe  0:42'', ''Thanks.'', ''Let us begin.'',
      ''Dan Goldin  0:59'', ''1:10'', ''First item.'']"

definition sample_transcript :: transcript where
  "sample_transcript =
     \<lparr>title = ''Weekly sync'',
      recording_date = Some \<lparr>year = 2025, month = 12, day = 5\<rparr>,
      duration_seconds = Some 1261,
      keyword_list = [''ai'', ''policy'', ''nasa''],
      speakers = [''Dan Goldin'', ''Jane Doe''],
      segments =
        [\<lparr>segment_index = 0, start_time = 5, speaker = Some ''Dan Goldin'',
          seg_text = ''Good morning.'', end_time = 42\<rparr>,
         \<lparr>segment_index = 1, start_time = 42, speaker = Some ''Jane Doe'',
          seg_text = ''Thanks. Let us begin.'', end_time = 70\<rparr>,
         \<lparr>segment_index = 2, start_time = 70, speaker = Some ''Dan Goldin'',
          seg_text = ''First item.'', end_time = 1261\<rparr>]\<rparr>"

text \<open>A document whose header declares the duration \<open>0:00\<close>.\<close>

definition zero_duration_doc :: "string list" where
  "zero_duration_doc =
     [''Empty take'', ''Fri, Dec 05, 2025 10:47AM - 0:00'',
      ''SUMMARY KEYWORDS'', ''test'', ''SPEAKERS'', ''Dan Goldin'',
      ''Dan Goldin  0:05'', ''Testing.'']"

definition zero_duration_transcript :: transcript where
  "zero_duration_transcript =
     \<lparr>title = ''Empty take'',
      recording_date = Some \<lparr>year = 2025, month = 12, day = 5\<rparr>,
      duration_seconds = Some 0,
      keyword_list = [''test''],
      speakers = [''Dan Goldin''],
      segments =
        [\<lparr>segment_index = 0, start_time = 5, speaker = Some ''Dan Goldin'',
          seg_text = ''Testing.'', end_time = 35\<rparr>]\<rparr>"

text \<open>A document whose second timestamp is earlier than its first.\<close>

definition out_of_order_doc :: "string list" where
  "out_of_order_doc =
     [''Panel'', ''Fri, Dec 05, 2025 10:47AM - 21:01'',
      ''SUMMARY KEYWORDS'', ''test'', ''SPEAKERS'', ''Alice, Bob'',
      ''Alice  0:30'', ''Hello.'', ''Bob  0:10'', ''Goodbye.'']"

definition out_of_order_transcript :: transcript where
  "out_of_order_transcript =
     \<lparr>title = ''Panel'',
      recording_date = Some \<lparr>year = 2025, month = 12, day = 5\<rparr>,
      duration_seconds = Some 1261,
      keyword_list = [''test''],
      speakers = [''Alice'', ''Bob''],
      segments =
        [\<lparr>segment_index = 0, start_time = 30, speaker = Some ''Alice'',
          seg_text = ''Hello.'', end_time = 10\<rparr>,
         \<lparr>segment_index = 1, start_time = 10, speaker = Some ''Bob'',
          seg_text = ''Goodbye.'', end_time = 1261\<rparr>]\<rparr>"

text \<open>The loop variables after a timestamp line that no text has followed yet.\<close>

definition awaiting_text :: scan where
  "awaiting_text = \<lparr>saved = [], current_speaker = Some ''Dan Goldin'',
                     current_start = Some 59, current_text = [], next_index = 0\<rparr>"

text \<open>A document with the bare timestamp line \<open>00:16\<close>, the form the source's own
  comment gives for a line without a speaker, and with the bare line \<open>10:05\<close>.\<close>

definition bare_timestamp_doc :: "string list" where
  "bare_timestamp_doc =
     [''Weekly sync'', ''Fri, Dec 05, 2025 10:47AM - 21:01'',
      ''SUMMARY KEYWORDS'', ''ai, policy, nasa'', ''SPEAKERS'', ''Dan Goldin, Jane Doe'',
      ''Dan Goldin  0:05'', ''Good morning.'',
      ''00:16'', ''Welcome back.'',
      ''10:05'', ''Last point.'']"

definition bare_timestamp_transcript :: transcript where
  "bare_timestamp_transcript =
     \<lparr>title = ''Weekly sync'',
      recording_date = Some \<lparr>year = 2025, month = 12, day = 5\<rparr>,
      duration_seconds = Some 1261,
      keyword_list = [''ai'', ''policy'', ''nasa''],
      speakers = [''Dan Goldin'', ''Jane Doe''],
      segments =
        [\<lparr>segment_index = 0, start_time = 5, speaker = Some ''Dan Goldin'',
          seg_text = ''Good morning.'', end_time = 16\<rparr>,
         \<lparr>segment_index = 1, start_time = 16, speaker = Some ''0'',
          seg_text = ''Welcome back.'', end_time = 5\<rparr>,
         \<lparr>segment_index = 2, start_time = 5, speaker = Some ''1'',
          seg_text = ''Last point.'', end_time = 1261\<rparr>]\<rparr>"

text \<open>A document whose date line holds a long-form date with a month name that
  \<open>strptime\<close> does not know, followed by the same date in the ISO form.\<close>

definition two_dates_line :: string where
  "two_dates_line = ''Tue, Sept 09, 2025 (2025-09-09) - 21:01''"

definition two_dates_doc :: "string list" where
  "two_dates_doc =
     [''Kickoff'', two_dates_line,
      ''SUMMARY KEYWORDS'', ''plan'', ''SPEAKERS'', ''Dan Goldin'',
      ''Dan Goldin  0:05'', ''Welcome.'']"

definition two_dates_transcript :: transcript where
  "two_dates_transcript =
     \<lparr>title = ''Kickoff'',
      recording_date = Some \<lparr>year = 2025, month = 9, day = 9\<rparr>,
      duration_seconds = Some 1261,
      keyword_list = [''plan''],
      speakers = [''Dan Goldin''],
      segments =
        [\<lparr>segment_index = 0, start_time = 5, speaker = Some ''Dan Goldin'',
          seg_text = ''Welcome.'', end_time = 1261\<rparr>]\<rparr>"

text \<open>An export directory with two documents, each with its audio file, and a store
  that accepts every upload.\<close>

definition brief_doc :: "string list" where
  "brief_doc = [''Stand-up'', ''Fri, Dec 05, 2025 - 0:45'', ''0:05'', ''Nothing to report.'']"

definition brief_transcript :: transcript where
  "brief_transcript =
     \<lparr>title = ''Stand-up'',
      recording_date = Some \<lparr>year = 2025, month = 12, day = 5\<rparr>,
      duration_seconds = Some 45,
      keyword_list = [], speakers = [], segments = []\<rparr>"

definition sample_world :: world where
  "sample_world =
     \<lparr>mp3_exists = (\<lambda>name. True),
      docx_texts = (\<lambda>name. Some brief_doc),
      uuid4_hex = (\<lambda>name. ''0123456789abcdef0123456789abcdef''),
      upload_ok = (\<lambda>path key. True),
      get_file_size = (\<lambda>name. 1000)\<rparr>"

definition sample_files :: "string list" where
  "sample_files = [''sync.docx'', ''retro.docx'']"

section \<open>End times\<close>

lemma parse_result:
  assumes "parse_otter_docx stem doc = Inr (Some t)"
  shows "\<exists>s. 3 \<le> length (nonempty_lines doc)
            \<and> extract_duration (nonempty_lines doc ! 1) = Inr (duration_seconds t)
            \<and> scan_lines scan_init (drop 6 (nonempty_lines doc)) = Inr s
            \<and> segments t = add_end_times (duration_seconds t) (last_segment s)
            \<and> recording_date t = extract_date date_patterns (nonempty_lines doc ! 1)"
  using assms
  by (auto simp: parse_otter_docx_def Let_def split: if_splits sum.splits)

lemma length_add_end_times [simp]: "length (add_end_times dur segs) = length segs"
  by (simp add: add_end_times_def)

lemma nth_add_end_times:
  "i < length segs \<Longrightarrow> add_end_times dur segs ! i = with_end (segs ! i) (end_of dur segs i)"
  by (simp add: add_end_times_def)

lemma with_end_fields [simp]:
  "segment_index (with_end seg e) = segment_index seg"
  "start_time (with_end seg e) = start_time seg"
  "speaker (with_end seg e) = speaker seg"
  "seg_text (with_end seg e) = seg_text seg"
  "end_time (with_end seg e) = e"
  by (simp_all add: with_end_def)

lemma last_add_end_times:
  assumes "segs \<noteq> []"
  shows "last (add_end_times dur segs) = with_end (last segs) (end_of dur segs (length segs - 1))"
proof -
  have ne: "add_end_times dur segs \<noteq> []"
    using assms by (simp add: add_end_times_def)
  have "last (add_end_times dur segs) = add_end_times dur segs ! (length segs - 1)"
    using ne by (simp add: last_conv_nth)
  also have "\<dots> = with_end (segs ! (length segs - 1)) (end_of dur segs (length segs - 1))"
    using assms by (simp add: nth_add_end_times)
  finally show ?thesis using assms by (simp add: last_conv_nth)
qed

lemma add_end_times_contiguous:
  assumes "i + 1 < length segs"
  shows "end_time (add_end_times dur segs ! i) = start_time (add_end_times dur segs ! (i + 1))"
  using assms by (simp add: nth_add_end_times end_of_def)

lemma add_end_times_last:
  assumes "segs \<noteq> []"
  shows "end_time (last (add_end_times dur segs)) =
     (case dur of Some v \<Rightarrow> if v \<noteq> 0 then v else start_time (last (add_end_times dur segs)) + 30
               | None \<Rightarrow> start_time (last (add_end_times dur segs)) + 30)"
  using assms by (simp add: last_add_end_times end_of_def last_conv_nth split: option.splits)

section \<open>The segment loop\<close>

lemma py_join_nonempty:
  "xs \<noteq> [] \<Longrightarrow> hd xs \<noteq> [] \<Longrightarrow> py_join sep xs \<noteq> []"
  by (cases xs; cases "tl xs") auto

lemma pending_Some:
  "pending s = Some seg \<Longrightarrow>
     segment_index seg = next_index s \<and> current_start s = Some (start_time seg)
     \<and> speaker seg = current_speaker s \<and> current_text s \<noteq> []
     \<and> seg_text seg = py_join '' '' (current_text s)"
  by (auto simp: pending_def split: option.splits if_splits)

lemma pending_None_iff:
  "pending s = None \<longleftrightarrow> current_start s = None \<or> current_text s = []"
  by (auto simp: pending_def split: option.splits)

lemma save_previous_fields [simp]:
  "current_speaker (save_previous s) = current_speaker s"
  "current_start (save_previous s) = current_start s"
  "current_text (save_previous s) = current_text s"
  by (simp_all add: save_previous_def split: option.splits)

lemma set_speaker_save_previous [simp]:
  "current_speaker (set_speaker g (save_previous s)) = current_speaker (set_speaker g s)"
  by (simp add: set_speaker_def split: option.splits)

lemma set_speaker_fields [simp]:
  "saved (set_speaker g s) = saved s"
  "next_index (set_speaker g s) = next_index s"
  "current_start (set_speaker g s) = current_start s"
  "current_text (set_speaker g s) = current_text s"
  by (simp_all add: set_speaker_def split: option.splits)

text \<open>Index invariant.\<close>

lemma save_previous_index:
  assumes "map segment_index (saved s) = [0..<length (saved s)]" "next_index s = length (saved s)"
  shows "map segment_index (saved (save_previous s)) = [0..<length (saved (save_previous s))]
       \<and> next_index (save_previous s) = length (saved (save_previous s))"
  using assms by (auto simp: save_previous_def dest: pending_Some split: option.splits)

lemma scan_step_cases:
  assumes "scan_step s para = Inr s'"
  shows "(re_match timestamp_pattern para = None \<and> saved s' = saved s \<and> next_index s' = next_index s
            \<and> current_speaker s' = current_speaker s \<and> current_start s' = current_start s
            \<and> (current_text s' = current_text s \<or> (para \<noteq> [] \<and> current_text s' = current_text s @ [para])))
       \<or> (\<exists>m. re_match timestamp_pattern para = Some m 
            \<and> saved s' = saved (save_previous s) \<and> next_index s' = next_index (save_previous s)
            \<and> current_speaker s' = current_speaker (set_speaker (m_group m 1) s)
            \<and> current_text s' = [])"
  using assms
  by (auto simp: scan_step_def Let_def split: option.splits sum.splits if_splits)

lemma scan_step_index:
  assumes "scan_step s para = Inr s'"
    and "map segment_index (saved s) = [0..<length (saved s)]" "next_index s = length (saved s)"
  shows "map segment_index (saved s') = [0..<length (saved s')] \<and> next_index s' = length (saved s')"
  using scan_step_cases [OF assms(1)] save_previous_index [OF assms(2,3)] assms(2,3)
  by auto

lemma scan_lines_index:
  assumes "scan_lines s paras = Inr s'"
    and "map segment_index (saved s) = [0..<length (saved s)]" "next_index s = length (saved s)"
  shows "map segment_index (saved s') = [0..<length (saved s')] \<and> next_index s' = length (saved s')"
  using assms
proof (induction paras arbitrary: s)
  case Nil
  then show ?case by simp
next
  case (Cons para paras)
  from Cons.prems(1) obtain s1 where st: "scan_step s para = Inr s1" and rest: "scan_lines s1 paras = Inr s'"
    by (auto split: sum.splits)
  from scan_step_index [OF st Cons.prems(2,3)] Cons.IH [OF rest] show ?case by blast
qed

lemma last_segment_index:
  assumes "map segment_index (saved s) = [0..<length (saved s)]" "next_index s = length (saved s)"
  shows "map segment_index (last_segment s) = [0..<length (last_segment s)]"
  using assms by (auto simp: last_segment_def dest: pending_Some split: option.splits)

lemma add_end_times_index:
  "map segment_index (add_end_times dur segs) = map segment_index segs"
  by (rule nth_equalityI) (simp_all add: nth_add_end_times)

lemma add_end_times_text:
  "map seg_text (add_end_times dur segs) = map seg_text segs"
  by (rule nth_equalityI) (simp_all add: nth_add_end_times)

lemma parse_indices:
  assumes "parse_otter_docx stem doc = Inr (Some t)"
  shows "map segment_index (segments t) = [0..<length (segments t)]"
proof -
  from parse_result [OF assms] obtain s where
    sc: "scan_lines scan_init (drop 6 (nonempty_lines doc)) = Inr s"
    and seg: "segments t = add_end_times (duration_seconds t) (last_segment s)" by blast
  have "map segment_index (saved s) = [0..<length (saved s)] \<and> next_index s = length (saved s)"
    by (rule scan_lines_index [OF sc]) (simp_all add: scan_init_def)
  then have "map segment_index (last_segment s) = [0..<length (last_segment s)]"
    using last_segment_index by blast
  then show ?thesis by (simp add: seg add_end_times_index)
qed

text \<open>Text invariant.\<close>

lemma scan_step_text:
  assumes "scan_step s para = Inr s'"
    and "\<forall>seg\<in>set (saved s). seg_text seg \<noteq> []" "\<forall>p\<in>set (current_text s). p \<noteq> []"
  shows "(\<forall>seg\<in>set (saved s'). seg_text seg \<noteq> []) \<and> (\<forall>p\<in>set (current_text s'). p \<noteq> [])"
proof -
  have sp: "\<forall>seg\<in>set (saved (save_previous s)). seg_text seg \<noteq> []"
  proof (cases "pending s")
    case None
    then show ?thesis using assms(2) by (simp add: save_previous_def)
  next
    case (Some seg)
    from pending_Some [OF Some] have "current_text s \<noteq> []" "seg_text seg = py_join '' '' (current_text s)"
      by simp_all
    moreover from this assms(3) have "hd (current_text s) \<noteq> []" by (cases "current_text s") auto
    ultimately have "seg_text seg \<noteq> []" by (simp add: py_join_nonempty)
    then show ?thesis using Some assms(2) by (simp add: save_previous_def)
  qed
  from scan_step_cases [OF assms(1)] sp assms(2,3) show ?thesis by auto
qed

lemma scan_lines_text:
  assumes "scan_lines s paras = Inr s'"
    and "\<forall>seg\<in>set (saved s). seg_text seg \<noteq> []" "\<forall>p\<in>set (current_text s). p \<noteq> []"
  shows "(\<forall>seg\<in>set (saved s'). seg_text seg \<noteq> []) \<and> (\<forall>p\<in>set (current_text s'). p \<noteq> [])"
  using assms
proof (induction paras arbitrary: s)
  case Nil
  then show ?case by simp
next
  case (Cons para paras)
  from Cons.prems(1) obtain s1 where st: "scan_step s para = Inr s1" and rest: "scan_lines s1 paras = Inr s'"
    by (auto split: sum.splits)
  from scan_step_text [OF st Cons.prems(2,3)] Cons.IH [OF rest] show ?case by blast
qed

lemma last_segment_text:
  assumes "\<forall>seg\<in>set (saved s). seg_text seg \<noteq> []" "\<forall>p\<in>set (current_text s). p \<noteq> []"
  shows "\<forall>seg\<in>set (last_segment s). seg_text seg \<noteq> []"
proof (cases "pending s")
  case None
  then show ?thesis using assms(1) by (simp add: last_segment_def)
next
  case (Some seg)
  from pending_Some [OF Some] have "current_text s \<noteq> []" "seg_text seg = py_join '' '' (current_text s)"
    by simp_all
  moreover from this assms(2) have "hd (current_text s) \<noteq> []" by (cases "current_text s") auto
  ultimately have "seg_text seg \<noteq> []" by (simp add: py_join_nonempty)
  then show ?thesis using Some assms(1) by (simp add: last_segment_def)
qed

lemma parse_texts:
  assumes "parse_otter_docx stem doc = Inr (Some t)"
  shows "\<forall>seg\<in>set (segments t). seg_text seg \<noteq> []"
proof -
  from parse_result [OF assms] obtain s where
    sc: "scan_lines scan_init (drop 6 (nonempty_lines doc)) = Inr s"
    and seg: "segments t = add_end_times (duration_seconds t) (last_segment s)" by blast
  have "(\<forall>seg\<in>set (saved s). seg_text seg \<noteq> []) \<and> (\<forall>p\<in>set (current_text s). p \<noteq> [])"
    by (rule scan_lines_text [OF sc]) (simp_all add: scan_init_def)
  then have "\<forall>seg\<in>set (last_segment s). seg_text seg \<noteq> []"
    using last_segment_text by blast
  then have "\<forall>x\<in>set (map seg_text (last_segment s)). x \<noteq> []" by simp
  then have "\<forall>x\<in>set (map seg_text (segments t)). x \<noteq> []"
    by (simp only: seg add_end_times_text)
  then show ?thesis by simp
qed

section \<open>The current speaker\<close>

lemma unlabelled_keeps_speaker:
  assumes "scan_step s para = Inr s'" "re_match timestamp_pattern para = Some m"
    and "m_group m 1 = None"
  shows "current_speaker s' = current_speaker s"
  using scan_step_cases [OF assms(1)] assms(2,3) by (auto simp: set_speaker_def)

lemma speaker_change_needs_label:
  assumes "scan_step s para = Inr s'" "current_speaker s' \<noteq> current_speaker s"
  shows "\<exists>m sp. re_match timestamp_pattern para = Some m \<and> m_group m 1 = Some sp \<and> sp \<noteq> []
           \<and> current_speaker s' = Some (py_strip sp)"
proof -
  from scan_step_cases [OF assms(1)] assms(2) obtain m where
    m: "re_match timestamp_pattern para = Some m"
    and sp: "current_speaker s' = current_speaker (set_speaker (m_group m 1) s)" by auto
  from sp assms(2) obtain x where "m_group m 1 = Some x" "x \<noteq> []"
    "current_speaker s' = Some (py_strip x)"
    by (auto simp: set_speaker_def split: option.splits if_splits)
  with m show ?thesis by blast
qed

lemma saved_segment_speaker:
  assumes "pending s = Some seg"
  shows "speaker seg = current_speaker s"
  using pending_Some [OF assms] by simp

section \<open>Facts about the matcher\<close>

subsection \<open>What a pattern consumes\<close>

lemma consumed_by_refl [simp]: "consumed_by st [] st"
  by (simp add: consumed_by_def)

lemma consumed_by_trans:
  "consumed_by a x b \<Longrightarrow> consumed_by b y c \<Longrightarrow> consumed_by a (x @ y) c"
  by (simp add: consumed_by_def)

lemma take_of_class:
  assumes "k \<le> length (takeWhile P r)"
  shows "list_all P (take k r)" and "length (take k r) = k"
proof -
  have "take k r = take k (takeWhile P r @ dropWhile P r)" by simp
  also have "\<dots> = take k (takeWhile P r)" using assms by (simp del: takeWhile_dropWhile_id)
  finally have eq: "take k r = take k (takeWhile P r)" .
  have "\<forall>c\<in>set (take k (takeWhile P r)). P c"
    by (meson in_set_takeD set_takeWhileD)
  then show "list_all P (take k r)" by (simp add: eq list_all_iff)
  show "length (take k r) = k" using assms by (simp add: eq)
qed

lemma run_class_elim:
  assumes "st' \<in> (\<lambda>k. (fst st @ take k (fst (snd st)), drop k (fst (snd st)), snd (snd st))) ` K"
    and "\<forall>k\<in>K. lo \<le> k \<and> k \<le> length (takeWhile P (fst (snd st)))"
  shows "\<exists>x. lo \<le> length x \<and> list_all P x \<and> consumed_by st x st' \<and> snd (snd st') = snd (snd st)"
proof -
  from assms obtain k where k: "lo \<le> k" "k \<le> length (takeWhile P (fst (snd st)))"
    and st': "st' = (fst st @ take k (fst (snd st)), drop k (fst (snd st)), snd (snd st))"
    by blast
  from take_of_class [OF k(2)] k(1) show ?thesis
    by (intro exI [of _ "take k (fst (snd st))"]) (simp add: st' consumed_by_def)
qed

lemma run_Plus_elim:
  assumes "st' \<in> set (run (Plus P) st)"
  shows "\<exists>x. x \<noteq> [] \<and> list_all P x \<and> consumed_by st x st' \<and> snd (snd st') = snd (snd st)"
proof -
  have "\<exists>x. 1 \<le> length x \<and> list_all P x \<and> consumed_by st x st' \<and> snd (snd st') = snd (snd st)"
    by (rule run_class_elim [where K = "{1..<Suc (length (takeWhile P (fst (snd st))))}"])
       (use assms in \<open>cases st; auto\<close>)+
  then show ?thesis by (metis One_nat_def Suc_le_length_iff list.distinct(1))
qed

lemma run_LazyPlus_elim:
  assumes "st' \<in> set (run (LazyPlus P) st)"
  shows "\<exists>x. x \<noteq> [] \<and> list_all P x \<and> consumed_by st x st' \<and> snd (snd st') = snd (snd st)"
proof -
  have "\<exists>x. 1 \<le> length x \<and> list_all P x \<and> consumed_by st x st' \<and> snd (snd st') = snd (snd st)"
    by (rule run_class_elim [where K = "{1..<Suc (length (takeWhile P (fst (snd st))))}"])
       (use assms in \<open>cases st; auto\<close>)+
  then show ?thesis by (metis One_nat_def Suc_le_length_iff list.distinct(1))
qed

lemma run_Star_elim:
  assumes "st' \<in> set (run (Star P) st)"
  shows "\<exists>x. list_all P x \<and> consumed_by st x st' \<and> snd (snd st') = snd (snd st)"
proof -
  have "\<exists>x. 0 \<le> length x \<and> list_all P x \<and> consumed_by st x st' \<and> snd (snd st') = snd (snd st)"
    by (rule run_class_elim [where K = "{0..<Suc (length (takeWhile P (fst (snd st))))}"])
       (use assms in \<open>cases st; auto\<close>)+
  then show ?thesis by blast
qed

lemma run_chr_elim:
  assumes "st' \<in> set (run (chr c) st)"
  shows "consumed_by st [c] st' \<and> snd (snd st') = snd (snd st)"
  using assms by (cases st) (auto simp: chr_def consumed_by_def split: list.splits if_splits)

lemma run_Seq_elim:
  assumes "st' \<in> set (run (Seq a b) st)"
  shows "\<exists>st1. st1 \<in> set (run a st) \<and> st' \<in> set (run b st1)"
  using assms by auto

lemma run_Opt_elim:
  assumes "st' \<in> set (run (Opt a) st)"
  shows "st' = st \<or> st' \<in> set (run a st)"
  using assms by auto

lemma run_Group_elim:
  assumes "st' \<in> set (run (Group n a) st)"
  shows "\<exists>st1. st1 \<in> set (run a st) \<and> fst st' = fst st1 \<and> fst (snd st') = fst (snd st1)
           \<and> snd (snd st') = (n, drop (length (fst st)) (fst st1)) # snd (snd st1)"
  using assms by (cases st) auto

lemma run_Eol_elim:
  assumes "st' \<in> set (run Eol st)"
  shows "st' = st \<and> (fst (snd st) = [] \<or> fst (snd st) = [CHR 0x0A])"
  using assms by (cases st) (auto split: if_splits)

lemma run_Bol_elim:
  assumes "st' \<in> set (run Bol st)"
  shows "st' = st \<and> fst st = []"
  using assms by (cases st) (auto split: if_splits)

subsection \<open>The time token\<close>

lemma run_colon_digits:
  assumes "st' \<in> set (run (seqs [chr CHR '':'', Plus is_digit]) st)"
  shows "\<exists>x. digits x \<and> consumed_by st ('':'' @ x) st' \<and> snd (snd st') = snd (snd st)"
proof -
  from assms obtain s1 s2 where 1: "s1 \<in> set (run (chr CHR '':'') st)"
    and 2: "s2 \<in> set (run (Plus is_digit) s1)" and 3: "st' \<in> set (run Eps s2)"
    unfolding seqs_def by (auto dest!: run_Seq_elim simp del: run.simps)
  from 3 have e: "st' = s2" by simp
  from run_Plus_elim [OF 2] obtain x where x: "x \<noteq> []" "list_all is_digit x"
    "consumed_by s1 x s2" "snd (snd s2) = snd (snd s1)" by blast
  from run_chr_elim [OF 1] x e show ?thesis
    by (intro exI [of _ x]) (auto simp: digits_def dest: consumed_by_trans)
qed

lemma run_time_re:
  assumes "st' \<in> set (run time_re st)"
  shows "\<exists>tok. is_time tok \<and> consumed_by st tok st' \<and> snd (snd st') = snd (snd st)"
proof -
  from assms obtain s1 s2 s3 s4 where 1: "s1 \<in> set (run (Plus is_digit) st)"
    and 2: "s2 \<in> set (run (chr CHR '':'') s1)"
    and 3: "s3 \<in> set (run (Plus is_digit) s2)"
    and 4: "s4 \<in> set (run (Opt (seqs [chr CHR '':'', Plus is_digit])) s3)"
    and 5: "st' \<in> set (run Eps s4)"
    unfolding time_re_def seqs_def [of "[Plus is_digit, _, _, _]"]
    by (auto dest!: run_Seq_elim simp del: run.simps)
  from 5 have e: "st' = s4" by simp
  from run_Plus_elim [OF 1] obtain d1 where d1: "digits d1" "consumed_by st d1 s1"
    "snd (snd s1) = snd (snd st)" by (auto simp: digits_def)
  from run_chr_elim [OF 2] have c: "consumed_by s1 '':'' s2" "snd (snd s2) = snd (snd s1)"
    by simp_all
  from run_Plus_elim [OF 3] obtain d2 where d2: "digits d2" "consumed_by s2 d2 s3"
    "snd (snd s3) = snd (snd s2)" by (auto simp: digits_def)
  have upto3: "consumed_by st (d1 @ '':'' @ d2) s3"
    using consumed_by_trans [OF d1(2) consumed_by_trans [OF c(1) d2(2)]] by simp
  from run_Opt_elim [OF 4] show ?thesis
  proof
    assume "s4 = s3"
    with upto3 d1 d2 c e show ?thesis
      by (intro exI [of _ "d1 @ '':'' @ d2"]) (auto simp: is_time_def)
  next
    assume "s4 \<in> set (run (seqs [chr CHR '':'', Plus is_digit]) s3)"
    from run_colon_digits [OF this] obtain d3 where d3: "digits d3"
      "consumed_by s3 ('':'' @ d3) s4" "snd (snd s4) = snd (snd s3)" by blast
    have "consumed_by st (d1 @ '':'' @ d2 @ '':'' @ d3) s4"
      using consumed_by_trans [OF upto3 d3(2)] by simp
    with d1 d2 d3 c e show ?thesis
      by (intro exI [of _ "d1 @ '':'' @ d2 @ '':'' @ d3"]) (auto simp: is_time_def)
  qed
qed

lemma run_Group_time_re:
  assumes "st' \<in> set (run (Group n time_re) st)"
  shows "\<exists>tok. is_time tok \<and> consumed_by st tok st' \<and> snd (snd st') = (n, tok) # snd (snd st)"
proof -
  from run_Group_elim [OF assms] obtain s1 where s1: "s1 \<in> set (run time_re st)"
    and f: "fst st' = fst s1" "fst (snd st') = fst (snd s1)"
    and g: "snd (snd st') = (n, drop (length (fst st)) (fst s1)) # snd (snd s1)" by blast
  from run_time_re [OF s1] obtain tok where tok: "is_time tok" "consumed_by st tok s1"
    "snd (snd s1) = snd (snd st)" by blast
  from tok(2) have "drop (length (fst st)) (fst s1) = tok" by (simp add: consumed_by_def)
  with tok f g show ?thesis
    by (intro exI [of _ tok]) (simp add: consumed_by_def)
qed

subsection \<open>Splitting and converting a time token\<close>

lemma code_colon [simp]: "code CHR '':'' = 58"
  by (simp add: code_def)

lemma digit_not_colon: "is_digit c \<Longrightarrow> c \<noteq> CHR '':''"
  by (auto simp: is_digit_def)

lemma digit_not_space: "is_digit c \<Longrightarrow> \<not> is_space c"
  by (auto simp: is_digit_def is_space_def)

lemma digit_not_sign: "is_digit c \<Longrightarrow> c \<noteq> CHR ''-'' \<and> c \<noteq> CHR ''+'' \<and> c \<noteq> CHR ''_''"
  by (auto simp: is_digit_def code_def)

lemma py_split_no_sep: "sep \<notin> set s \<Longrightarrow> py_split sep s = [s]"
  by (induction s) auto

lemma py_split_append: "sep \<notin> set a \<Longrightarrow> py_split sep (a @ sep # b) = a # py_split sep b"
  by (induction a) auto

lemma digits_no_colon: "digits s \<Longrightarrow> CHR '':'' \<notin> set s"
  by (auto simp: digits_def list_all_iff dest: digit_not_colon)

lemma py_strip_id:
  assumes "s \<noteq> []" "\<not> is_space (hd s)" "\<not> is_space (last s)"
  shows "py_strip s = s"
proof -
  have 1: "dropWhile is_space s = s" using assms(1,2) by (cases s) auto
  have "rev s \<noteq> []" "\<not> is_space (hd (rev s))" using assms(1,3) by (simp_all add: hd_rev)
  then have 2: "dropWhile is_space (rev s) = rev s" by (cases "rev s") auto
  show ?thesis by (simp add: py_strip_def 1 2)
qed

lemma int_body_ok_digits: "s \<noteq> [] \<Longrightarrow> list_all is_digit s \<Longrightarrow> int_body_ok s"
  by (induction s rule: int_body_ok.induct) (auto dest: digit_not_sign)

lemma py_int_digits:
  assumes "digits s"
  shows "py_int s = Some (int (dec_value s))"
proof -
  from assms have ne: "s \<noteq> []" and all: "list_all is_digit s" by (simp_all add: digits_def)
  from ne all have "is_digit (hd s)" "is_digit (last s)" by (auto simp: list_all_iff)
  then have strip: "py_strip s = s" and sign: "hd s \<noteq> CHR ''-''" "hd s \<noteq> CHR ''+''"
    using ne by (auto intro: py_strip_id dest: digit_not_space digit_not_sign)
  have "filter (\<lambda>c. c \<noteq> CHR ''_'') s = s"
    using all by (auto simp: list_all_iff filter_id_conv dest: digit_not_sign)
  then show ?thesis
    using int_body_ok_digits [OF ne all] strip sign by (simp add: py_int_def Let_def)
qed

lemma hms_seconds_time:
  assumes "is_time tok"
  shows "\<exists>v. hms_seconds tok old = Inr (Some v) \<and> 0 \<le> v"
proof -
  from assms obtain d1 d2 where d: "digits d1" "digits d2"
    and tok: "tok = d1 @ '':'' @ d2 \<or> (\<exists>d3. digits d3 \<and> tok = d1 @ '':'' @ d2 @ '':'' @ d3)"
    unfolding is_time_def by blast
  from tok show ?thesis
  proof
    assume "tok = d1 @ '':'' @ d2"
    then have "py_split CHR '':'' tok = [d1, d2]"
      using d by (simp add: py_split_append py_split_no_sep digits_no_colon)
    then show ?thesis
      using d by (simp add: hms_seconds_def py_int_digits)
  next
    assume "\<exists>d3. digits d3 \<and> tok = d1 @ '':'' @ d2 @ '':'' @ d3"
    then obtain d3 where d3: "digits d3" and t: "tok = d1 @ '':'' @ d2 @ '':'' @ d3" by blast
    then have "py_split CHR '':'' tok = [d1, d2, d3]"
      using d by (simp add: py_split_append py_split_no_sep digits_no_colon)
    then show ?thesis
      using d d3 by (simp add: hms_seconds_def py_int_digits)
  qed
qed

subsection \<open>The groups of a duration match and of a timestamp match\<close>

lemma re_match_in_run: "re_match p s = Some m \<Longrightarrow> m \<in> set (run p ([], s, []))"
  by (auto simp: re_match_def split: list.splits)

lemma search_from_in_run:
  "search_from p d s = Some m \<Longrightarrow> \<exists>i\<le>length s. m \<in> set (run p (d @ take i s, drop i s, []))"
proof (induction s arbitrary: d)
  case Nil
  then show ?case by (auto split: list.splits)
next
  case (Cons c cs)
  show ?case
  proof (cases "run p (d, c # cs, [])")
    case Nil
    with Cons.prems have "search_from p (d @ [c]) cs = Some m" by simp
    from Cons.IH [OF this] obtain i where "i \<le> length cs"
      "m \<in> set (run p ((d @ [c]) @ take i cs, drop i cs, []))" by blast
    then show ?thesis by (intro exI [of _ "Suc i"]) simp
  next
    case (Cons st sts)
    with Cons.prems have "m \<in> set (run p (d @ take 0 (c # cs), drop 0 (c # cs), []))" by simp
    then show ?thesis by blast
  qed
qed

lemma duration_pattern_run:
  assumes "m \<in> set (run duration_pattern st)"
  shows "\<exists>tok ws. is_time tok \<and> list_all is_space ws \<and> consumed_by st (tok @ ws) m
           \<and> snd (snd m) = (1, tok) # snd (snd st)
           \<and> (fst (snd m) = [] \<or> fst (snd m) = [CHR 0x0A])"
proof -
  from assms obtain s1 s2 s3 where 1: "s1 \<in> set (run (Group 1 time_re) st)"
    and 2: "s2 \<in> set (run (Star is_space) s1)"
    and 3: "s3 \<in> set (run Eol s2)" and 4: "m \<in> set (run Eps s3)"
    unfolding duration_pattern_def seqs_def by (auto dest!: run_Seq_elim simp del: run.simps)
  from run_Group_time_re [OF 1] obtain tok where tok: "is_time tok" "consumed_by st tok s1"
    "snd (snd s1) = (1, tok) # snd (snd st)" by blast
  from run_Star_elim [OF 2] obtain ws where ws: "list_all is_space ws" "consumed_by s1 ws s2"
    "snd (snd s2) = snd (snd s1)" by blast
  from run_Eol_elim [OF 3] 4 have e: "m = s2" "fst (snd s2) = [] \<or> fst (snd s2) = [CHR 0x0A]"
    by simp_all
  from consumed_by_trans [OF tok(2) ws(2)] tok ws e show ?thesis
    by (intro exI [of _ tok] exI [of _ ws]) simp
qed

lemma duration_group:
  assumes "re_search duration_pattern line = Some m"
  shows "\<exists>tok. m_group m 1 = Some tok \<and> is_time tok"
proof -
  from assms search_from_in_run obtain i where
    "m \<in> set (run duration_pattern ([] @ take i line, drop i line, []))"
    unfolding re_search_def by blast
  from duration_pattern_run [OF this] show ?thesis by (auto simp: m_group_def)
qed

lemma timestamp_group:
  assumes "re_match timestamp_pattern para = Some m"
  shows "\<exists>tok. m_group m 2 = Some tok \<and> is_time tok"
proof -
  from re_match_in_run [OF assms] obtain s0 s1 s2 s3 s4 s5 where
        0: "s0 \<in> set (run Bol ([], para, []))"
    and 1: "s1 \<in> set (run (Opt (Group 1 (LazyPlus not_newline))) s0)"
    and 2: "s2 \<in> set (run (Star is_space) s1)"
    and 3: "s3 \<in> set (run (Group 2 time_re) s2)"
    and 4: "s4 \<in> set (run (Star is_space) s3)"
    and 5: "s5 \<in> set (run Eol s4)" and 6: "m \<in> set (run Eps s5)"
    unfolding timestamp_pattern_def seqs_def by (auto dest!: run_Seq_elim simp del: run.simps)
  from run_Group_time_re [OF 3] obtain tok where tok: "is_time tok"
    "snd (snd s3) = (2, tok) # snd (snd s2)" by blast
  from run_Star_elim [OF 4] have "snd (snd s4) = snd (snd s3)" by blast
  moreover from run_Eol_elim [OF 5] 6 have "m = s4" by simp
  ultimately show ?thesis using tok by (auto simp: m_group_def)
qed

subsection \<open>The parser raises nothing\<close>

lemma extract_duration_total: "\<exists>dur. extract_duration line = Inr dur"
proof (cases "re_search duration_pattern line")
  case None
  then show ?thesis by (simp add: extract_duration_def)
next
  case (Some m)
  from duration_group [OF Some] obtain tok where "m_group m 1 = Some tok" "is_time tok" by blast
  with hms_seconds_time [of tok None] Some show ?thesis
    by (auto simp: extract_duration_def)
qed

lemma scan_step_total: "\<exists>s'. scan_step s para = Inr s'"
proof (cases "re_match timestamp_pattern para")
  case None
  then show ?thesis by (simp add: scan_step_def)
next
  case (Some m)
  from timestamp_group [OF Some] obtain tok where tok: "m_group m 2 = Some tok" "is_time tok"
    by blast
  from hms_seconds_time [OF tok(2)] obtain v where
    "hms_seconds tok (current_start (set_speaker (m_group m 1) (save_previous s))) = Inr (Some v)"
    by blast
  with Some tok(1) show ?thesis by (simp add: scan_step_def Let_def)
qed

lemma scan_lines_total: "\<exists>s'. scan_lines s paras = Inr s'"
proof (induction paras arbitrary: s)
  case Nil
  then show ?case by simp
next
  case (Cons para paras)
  from scan_step_total obtain s1 where "scan_step s para = Inr s1" by blast
  with Cons.IH [of s1] show ?case by simp
qed

lemma parse_total:
  assumes "3 \<le> length (nonempty_lines doc)"
  shows "\<exists>t. parse_otter_docx stem doc = Inr (Some t)"
proof -
  from extract_duration_total obtain dur where
    "extract_duration (nonempty_lines doc ! 1) = Inr dur" by blast
  moreover from scan_lines_total obtain s where
    "scan_lines scan_init (drop 6 (nonempty_lines doc)) = Inr s" by blast
  ultimately show ?thesis using assms by (simp add: parse_otter_docx_def Let_def)
qed

lemma parse_short:
  assumes "length (nonempty_lines doc) < 3"
  shows "parse_otter_docx stem doc = Inr None"
  using assms by (simp add: parse_otter_docx_def Let_def)

subsection \<open>The match the matcher reports first\<close>

lemma upt_rev_hd: "lo \<le> n \<Longrightarrow> rev [lo..<Suc n] = n # rev [lo..<n]"
  by simp

lemma takeWhile_class_prefix:
  assumes "list_all P x" "r = [] \<or> \<not> P (hd r)"
  shows "takeWhile P (x @ r) = x"
proof -
  have "takeWhile P r = []" using assms(2) by (cases r) auto
  with assms(1) show ?thesis by (simp add: takeWhile_append2 list_all_iff)
qed

lemma run_Plus_first:
  assumes "x \<noteq> []" "list_all P x" "r = [] \<or> \<not> P (hd r)"
  shows "\<exists>more. run (Plus P) (d, x @ r, g) = (d @ x, r, g) # more"
proof -
  have n: "length (takeWhile P (x @ r)) = length x"
    using takeWhile_class_prefix [OF assms(2,3)] by simp
  have "1 \<le> length x" using assms(1) by (cases x) auto
  then have "rev [1..<Suc (length x)] = length x # rev [1..<length x]" by (rule upt_rev_hd)
  then show ?thesis by (simp add: n)
qed

lemma run_LazyPlus_first:
  assumes "P c"
  shows "\<exists>more. run (LazyPlus P) (d, c # r, g) = (d @ [c], r, g) # more"
proof -
  have "1 \<le> length (takeWhile P (c # r))" using assms by simp
  then have "[1..<Suc (length (takeWhile P (c # r)))] = 1 # [2..<Suc (length (takeWhile P (c # r)))]"
    by (simp add: upt_conv_Cons numeral_2_eq_2)
  then show ?thesis by simp
qed

lemma run_Star_none:
  assumes "r = [] \<or> \<not> P (hd r)"
  shows "run (Star P) (d, r, g) = [(d, r, g)]"
proof -
  have "takeWhile P r = []" using assms by (cases r) auto
  then show ?thesis by simp
qed

lemma run_chr_first: "run (chr c) (d, c # r, g) = [(d @ [c], r, g)]"
  by (simp add: chr_def)

lemma run_Seq_first:
  assumes "run a st = s1 # more1" "run b s1 = s2 # more2"
  shows "\<exists>more. run (Seq a b) st = s2 # more"
  using assms by simp

lemma run_Group_first:
  assumes "run a (d, r, g) = (d', r', g') # more1"
  shows "\<exists>more. run (Group n a) (d, r, g) = (d', r', (n, drop (length d) d') # g') # more"
  using assms by simp

lemma run_colon_digits_first:
  assumes "digits x"
  shows "\<exists>more. run (seqs [chr CHR '':'', Plus is_digit]) (d, '':'' @ x, g) = (d @ '':'' @ x, [], g) # more"
proof -
  from assms have x: "x \<noteq> []" "list_all is_digit x" by (simp_all add: digits_def)
  from run_Plus_first [OF x, of "[]" "d @ '':''" g] obtain m1 where
    1: "run (Plus is_digit) (d @ '':'', x, g) = (d @ '':'' @ x, [], g) # m1" by auto
  have 0: "run (chr CHR '':'') (d, '':'' @ x, g) = [(d @ '':'', x, g)]"
    using run_chr_first [of "CHR '':''" d x g] by simp
  have e: "run Eps (d @ '':'' @ x, [], g) = [(d @ '':'' @ x, [], g)]" by simp
  from run_Seq_first [OF 1 e] obtain m2 where
    "run (Seq (Plus is_digit) Eps) (d @ '':'', x, g) = (d @ '':'' @ x, [], g) # m2" by blast
  from run_Seq_first [OF 0 this] show ?thesis by (simp add: seqs_def)
qed

lemma run_time_re_first:
  assumes "is_time tok"
  shows "\<exists>more. run time_re (d, tok, g) = (d @ tok, [], g) # more"
proof -
  from assms obtain d1 d2 where d1: "digits d1" and d2: "digits d2"
    and tok: "tok = d1 @ '':'' @ d2 \<or> (\<exists>d3. digits d3 \<and> tok = d1 @ '':'' @ d2 @ '':'' @ d3)"
    unfolding is_time_def by blast
  from d1 d2 have x1: "d1 \<noteq> []" "list_all is_digit d1" and x2: "d2 \<noteq> []" "list_all is_digit d2"
    by (simp_all add: digits_def)
  have nc: "\<not> is_digit CHR '':''" by (simp add: is_digit_def)
  define opt where "opt = Opt (seqs [chr CHR '':'', Plus is_digit])"
  have tail: "\<exists>more. run (Seq (chr CHR '':'') (Seq (Plus is_digit) (Seq opt Eps))) (d @ d1, '':'' @ d2 @ r, g)
                  = (d @ d1 @ '':'' @ d2 @ r, [], g) # more"
    if r: "r = [] \<or> (\<exists>d3. digits d3 \<and> r = '':'' @ d3)" for r
  proof -
    have hr: "r = [] \<or> \<not> is_digit (hd r)" using r nc by auto
    from run_Plus_first [OF x2 hr, of "d @ d1 @ '':''" g] obtain m2 where
      2: "run (Plus is_digit) (d @ d1 @ '':'', d2 @ r, g) = (d @ d1 @ '':'' @ d2, r, g) # m2"
      by auto
    have "\<exists>m3. run opt (d @ d1 @ '':'' @ d2, r, g) = (d @ d1 @ '':'' @ d2 @ r, [], g) # m3"
    proof (cases "r = []")
      case True
      have "run (seqs [chr CHR '':'', Plus is_digit]) (d @ d1 @ '':'' @ d2, [], g) = []"
        by (simp add: seqs_def chr_def)
      with True show ?thesis by (simp add: opt_def)
    next
      case False
      with r obtain d3 where d3: "digits d3" "r = '':'' @ d3" by blast
      from run_colon_digits_first [OF d3(1), of "d @ d1 @ '':'' @ d2" g] d3(2)
      show ?thesis by (auto simp: opt_def)
    qed
    then obtain m3 where 3: "run opt (d @ d1 @ '':'' @ d2, r, g) = (d @ d1 @ '':'' @ d2 @ r, [], g) # m3"
      by blast
    have e: "run Eps (d @ d1 @ '':'' @ d2 @ r, [], g) = [(d @ d1 @ '':'' @ d2 @ r, [], g)]" by simp
    from run_Seq_first [OF 3 e] obtain m4 where
      4: "run (Seq opt Eps) (d @ d1 @ '':'' @ d2, r, g) = (d @ d1 @ '':'' @ d2 @ r, [], g) # m4" by blast
    from run_Seq_first [OF 2 4] obtain m5 where
      5: "run (Seq (Plus is_digit) (Seq opt Eps)) (d @ d1 @ '':'', d2 @ r, g)
            = (d @ d1 @ '':'' @ d2 @ r, [], g) # m5" by blast
    have 0: "run (chr CHR '':'') (d @ d1, '':'' @ d2 @ r, g) = [(d @ d1 @ '':'', d2 @ r, g)]"
      using run_chr_first [of "CHR '':''" "d @ d1" "d2 @ r" g] by simp
    from run_Seq_first [OF 0 5] show ?thesis .
  qed
  from tok obtain r where r: "r = [] \<or> (\<exists>d3. digits d3 \<and> r = '':'' @ d3)"
    and t: "tok = d1 @ '':'' @ d2 @ r" by auto
  from tail [OF r] obtain m where
    m: "run (Seq (chr CHR '':'') (Seq (Plus is_digit) (Seq opt Eps))) (d @ d1, '':'' @ d2 @ r, g)
                  = (d @ d1 @ '':'' @ d2 @ r, [], g) # m" by blast
  have h: "'':'' @ d2 @ r = [] \<or> \<not> is_digit (hd ('':'' @ d2 @ r))" using nc by simp
  from run_Plus_first [OF x1 h, of d g] obtain m1 where
    1: "run (Plus is_digit) (d, d1 @ '':'' @ d2 @ r, g) = (d @ d1, '':'' @ d2 @ r, g) # m1" by blast
  from run_Seq_first [OF 1 m] show ?thesis
    by (simp add: time_re_def seqs_def opt_def t)
qed

lemma is_time_hd: "is_time tok \<Longrightarrow> tok \<noteq> [] \<and> is_digit (hd tok)"
  by (auto simp: is_time_def digits_def list_all_iff hd_append)

lemma bare_timestamp_first_digit:
  assumes c: "is_digit c" and tok: "is_time tok"
  shows "re_match timestamp_pattern (c # tok) = Some (c # tok, [], [(2, tok), (1, [c])])"
proof -
  from is_time_hd [OF tok] have ns: "tok = [] \<or> \<not> is_space (hd tok)"
    by (auto dest: digit_not_space)
  have nn: "not_newline c" using c by (auto simp: not_newline_def is_digit_def code_def)
  \<comment> \<open>the part of the pattern after the optional speaker group, from behind\<close>
  have e: "run Eps ([c] @ tok, [], [(2, tok), (1, [c])]) = [([c] @ tok, [], [(2, tok), (1, [c])])]"
    by simp
  have eol: "run Eol ([c] @ tok, [], [(2, tok), (1, [c])]) = [([c] @ tok, [], [(2, tok), (1, [c])])]"
    by simp
  from run_Seq_first [OF eol e] obtain m1 where
    1: "run (Seq Eol Eps) ([c] @ tok, [], [(2, tok), (1, [c])]) = ([c] @ tok, [], [(2, tok), (1, [c])]) # m1"
    by blast
  have st2: "run (Star is_space) ([c] @ tok, [], [(2, tok), (1, [c])]) = [([c] @ tok, [], [(2, tok), (1, [c])])]"
    by (rule run_Star_none) simp
  from run_Seq_first [OF st2 1] obtain m2 where
    2: "run (Seq (Star is_space) (Seq Eol Eps)) ([c] @ tok, [], [(2, tok), (1, [c])])
          = ([c] @ tok, [], [(2, tok), (1, [c])]) # m2" by blast
  from run_time_re_first [OF tok, of "[c]" "[(1, [c])]"] obtain m3 where
    "run time_re ([c], tok, [(1, [c])]) = ([c] @ tok, [], [(1, [c])]) # m3" by blast
  from run_Group_first [OF this, of 2] obtain m4 where
    4: "run (Group 2 time_re) ([c], tok, [(1, [c])]) = ([c] @ tok, [], [(2, tok), (1, [c])]) # m4"
    by auto
  from run_Seq_first [OF 4 2] obtain m5 where
    5: "run (Seq (Group 2 time_re) (Seq (Star is_space) (Seq Eol Eps))) ([c], tok, [(1, [c])])
          = ([c] @ tok, [], [(2, tok), (1, [c])]) # m5" by blast
  have st1: "run (Star is_space) ([c], tok, [(1, [c])]) = [([c], tok, [(1, [c])])]"
    by (rule run_Star_none) (rule ns)
  from run_Seq_first [OF st1 5] obtain m6 where
    6: "run (Seq (Star is_space) (Seq (Group 2 time_re) (Seq (Star is_space) (Seq Eol Eps))))
          ([c], tok, [(1, [c])]) = ([c] @ tok, [], [(2, tok), (1, [c])]) # m6" by blast
  \<comment> \<open>the optional speaker group takes one character first\<close>
  from run_LazyPlus_first [of not_newline c "[]" tok "[]", OF nn] obtain m7 where
    "run (LazyPlus not_newline) ([], c # tok, []) = ([] @ [c], tok, []) # m7" by blast
  from run_Group_first [OF this, of 1] obtain m8 where
    "run (Group 1 (LazyPlus not_newline)) ([], c # tok, []) = ([c], tok, [(1, [c])]) # m8"
    by auto
  then obtain m9 where
    9: "run (Opt (Group 1 (LazyPlus not_newline))) ([], c # tok, []) = ([c], tok, [(1, [c])]) # m9"
    by simp
  from run_Seq_first [OF 9 6] obtain m10 where
    10: "run (Seq (Opt (Group 1 (LazyPlus not_newline)))
           (Seq (Star is_space) (Seq (Group 2 time_re) (Seq (Star is_space) (Seq Eol Eps)))))
          ([], c # tok, []) = ([c] @ tok, [], [(2, tok), (1, [c])]) # m10" by blast
  have b: "run Bol ([], c # tok, []) = [([], c # tok, [])]" by simp
  from run_Seq_first [OF b 10] obtain m11 where
    "run timestamp_pattern ([], c # tok, []) = ([c] @ tok, [], [(2, tok), (1, [c])]) # m11"
    unfolding timestamp_pattern_def seqs_def by auto
  then show ?thesis by (simp add: re_match_def)
qed

lemma bare_timestamp_step:
  assumes "is_digit c" "is_time tok"
  shows "\<exists>s'. scan_step s (c # tok) = Inr s' \<and> current_speaker s' = Some [c]"
proof -
  have strip: "py_strip [c] = [c]"
    using assms(1) by (intro py_strip_id) (auto dest: digit_not_space)
  from hms_seconds_time [OF assms(2)] obtain v where
    "hms_seconds tok (current_start (set_speaker (Some [c]) (save_previous s))) = Inr (Some v)"
    by blast
  then show ?thesis
    by (simp add: scan_step_def bare_timestamp_first_digit [OF assms] m_group_def Let_def
        set_speaker_def strip)
qed

section \<open>The duration of the header line\<close>

lemma is_time_chars: "is_time tok \<Longrightarrow> \<forall>c\<in>set tok. is_digit c \<or> c = CHR '':''"
  by (auto simp: is_time_def digits_def list_all_iff)

lemma space_newline: "is_space (CHR 0x0A)"
  by (simp add: is_space_def code_def)

lemma no_match_inside_prefix:
  assumes i: "i < length p" and p: "\<not> is_digit (last p)" "last p \<noteq> CHR '':''"
    and t: "t \<noteq> []" "\<not> is_space (last t)"
  shows "run duration_pattern (d, drop i p @ t, g) = []"
proof (rule ccontr)
  assume "run duration_pattern (d, drop i p @ t, g) \<noteq> []"
  then obtain m where "m \<in> set (run duration_pattern (d, drop i p @ t, g))"
    by (cases "run duration_pattern (d, drop i p @ t, g)") auto
  from duration_pattern_run [OF this] obtain tok ws where tok: "is_time tok"
    and ws: "list_all is_space ws" and c: "consumed_by (d, drop i p @ t, g) (tok @ ws) m"
    and e: "fst (snd m) = [] \<or> fst (snd m) = [CHR 0x0A]" by blast
  define w where "w = ws @ fst (snd m)"
  from c have eq: "drop i p @ t = tok @ w" by (simp add: consumed_by_def w_def)
  have wsp: "list_all is_space w" using ws e space_newline by (auto simp: w_def)
  have "w = []"
  proof (rule ccontr)
    assume "w \<noteq> []"
    then have "last (tok @ w) = last w" by simp
    moreover have "last (drop i p @ t) = last t" using t(1) by simp
    ultimately have "last t = last w" using eq by simp
    moreover have "is_space (last w)" using wsp \<open>w \<noteq> []\<close> by (simp add: list_all_iff)
    ultimately show False using t(2) by simp
  qed
  with eq have "drop i p @ t = tok" by simp
  moreover have "last p \<in> set (drop i p)" using i
    by (metis drop_eq_Nil last_drop last_in_set not_le)
  ultimately have "last p \<in> set tok" by (metis Un_iff set_append)
  with is_time_chars [OF tok] p show False by blast
qed

lemma search_from_skip:
  assumes "\<forall>i<length x. run p (d @ take i x, drop i x @ y, []) = []"
  shows "search_from p d (x @ y) = search_from p (d @ x) y"
  using assms
proof (induction x arbitrary: d)
  case Nil
  then show ?case by simp
next
  case (Cons c cs)
  from Cons.prems have 0: "run p (d, (c # cs) @ y, []) = []" by fastforce
  have "\<forall>i<length cs. run p ((d @ [c]) @ take i cs, drop i cs @ y, []) = []"
  proof (intro allI impI)
    fix i assume "i < length cs"
    then have "Suc i < length (c # cs)" by simp
    with Cons.prems have "run p (d @ take (Suc i) (c # cs), drop (Suc i) (c # cs) @ y, []) = []"
      by blast
    then show "run p ((d @ [c]) @ take i cs, drop i cs @ y, []) = []" by simp
  qed
  from Cons.IH [OF this] 0 show ?case by simp
qed

lemma run_at_2101:
  "run duration_pattern (p, ''21:01'', []) = [(p @ ''21:01'', [], [(1, ''21:01'')])]"
  by (simp add: duration_pattern_def time_re_def seqs_def chr_def is_digit_def code_def is_space_def upt_rec)

lemma run_at_12101:
  "run duration_pattern (p, ''1:21:01'', []) = [(p @ ''1:21:01'', [], [(1, ''1:21:01'')])]"
  by (simp add: duration_pattern_def time_re_def seqs_def chr_def is_digit_def code_def is_space_def upt_rec)

lemma hms_2101: "hms_seconds ''21:01'' None = Inr (Some 1261)"
  by code_simp

lemma hms_12101: "hms_seconds ''1:21:01'' None = Inr (Some 4861)"
  by code_simp

lemma search_from_at_token:
  assumes "p = [] \<or> (\<not> is_digit (last p) \<and> last p \<noteq> CHR '':'')"
    and "t \<noteq> []" "\<not> is_space (last t)"
  shows "re_search duration_pattern (p @ t) = search_from duration_pattern p t"
proof -
  have "\<forall>i<length p. run duration_pattern ([] @ take i p, drop i p @ t, []) = []"
    using assms by (auto intro: no_match_inside_prefix)
  from search_from_skip [OF this] show ?thesis by (simp add: re_search_def)
qed

lemma duration_2101:
  assumes "p = [] \<or> (\<not> is_digit (last p) \<and> last p \<noteq> CHR '':'')"
  shows "extract_duration (p @ ''21:01'') = Inr (Some 1261)"
proof -
  have "\<not> is_space (last ''21:01'')" by (simp add: is_space_def code_def)
  with assms have "re_search duration_pattern (p @ ''21:01'') = search_from duration_pattern p ''21:01''"
    by (intro search_from_at_token) simp_all
  also have "\<dots> = Some (p @ ''21:01'', [], [(1, ''21:01'')])"
    by (simp add: run_at_2101)
  finally show ?thesis by (simp add: extract_duration_def m_group_def hms_2101)
qed

lemma duration_12101:
  assumes "p = [] \<or> (\<not> is_digit (last p) \<and> last p \<noteq> CHR '':'')"
  shows "extract_duration (p @ ''1:21:01'') = Inr (Some 4861)"
proof -
  have "\<not> is_space (last ''1:21:01'')" by (simp add: is_space_def code_def)
  with assms have "re_search duration_pattern (p @ ''1:21:01'') = search_from duration_pattern p ''1:21:01''"
    by (intro search_from_at_token) simp_all
  also have "\<dots> = Some (p @ ''1:21:01'', [], [(1, ''1:21:01'')])"
    by (simp add: run_at_12101)
  finally show ?thesis by (simp add: extract_duration_def m_group_def hms_12101)
qed

lemma is_time_last: "is_time tok \<Longrightarrow> tok \<noteq> [] \<and> is_digit (last tok)"
  by (auto simp: is_time_def digits_def list_all_iff)

lemma no_token_no_match:
  assumes "line \<noteq> []" "\<not> is_digit (last line)" "\<not> is_space (last line)"
  shows "re_search duration_pattern line = None"
proof (rule ccontr)
  assume "re_search duration_pattern line \<noteq> None"
  then obtain m where "search_from duration_pattern [] line = Some m"
    by (auto simp: re_search_def)
  from search_from_in_run [OF this] obtain i where i: "i \<le> length line"
    and m: "m \<in> set (run duration_pattern ([] @ take i line, drop i line, []))" by blast
  from duration_pattern_run [OF m] obtain tok ws where tok: "is_time tok"
    and ws: "list_all is_space ws" and c: "consumed_by ([] @ take i line, drop i line, []) (tok @ ws) m"
    and e: "fst (snd m) = [] \<or> fst (snd m) = [CHR 0x0A]" by blast
  define w where "w = ws @ fst (snd m)"
  from c have eq: "drop i line = tok @ w" by (simp add: consumed_by_def w_def)
  have wsp: "list_all is_space w" using ws e space_newline by (auto simp: w_def)
  from is_time_last [OF tok] have tne: "tok \<noteq> []" and tl: "is_digit (last tok)" by simp_all
  from eq tne have "drop i line \<noteq> []" by simp
  then have "i < length line" by simp
  then have l: "last (drop i line) = last line" by (rule last_drop)
  show False
  proof (cases "w = []")
    case True
    with eq l tl assms(2) show False by simp
  next
    case False
    then have "last (tok @ w) = last w" by simp
    moreover have "is_space (last w)" using wsp False by (simp add: list_all_iff)
    ultimately show False using eq l assms(3) by simp
  qed
qed

lemma extract_duration_cases:
  "(re_search duration_pattern line = None \<longrightarrow> extract_duration line = Inr None)
   \<and> (re_search duration_pattern line \<noteq> None \<longrightarrow>
        (\<exists>v. extract_duration line = Inr (Some v) \<and> 0 \<le> v))"
proof (cases "re_search duration_pattern line")
  case None
  then show ?thesis by (simp add: extract_duration_def)
next
  case (Some m)
  from duration_group [OF Some] obtain tok where "m_group m 1 = Some tok" "is_time tok" by blast
  with hms_seconds_time [of tok None] Some show ?thesis
    by (auto simp: extract_duration_def)
qed

section \<open>The loop over the date patterns\<close>

lemma extract_date_None_iff:
  "extract_date pats line = None \<longleftrightarrow>
     (\<forall>p\<in>set pats. \<forall>m. re_search p line = Some m \<longrightarrow> (\<exists>e. convert_date m = Inl e))"
proof (induction pats)
  case Nil
  then show ?case by simp
next
  case (Cons p pats)
  show ?case
  proof (cases "re_search p line")
    case None
    with Cons.IH show ?thesis by simp
  next
    case (Some m)
    show ?thesis
    proof (cases "convert_date m")
      case (Inl e)
      with Some Cons.IH show ?thesis by (simp del: split_paired_All)
    next
      case (Inr d)
      with Some show ?thesis by (auto simp del: split_paired_All)
    qed
  qed
qed

lemma extract_date_Some:
  assumes "extract_date pats line = Some d"
  shows "\<exists>i<length pats. \<exists>m. re_search (pats ! i) line = Some m \<and> convert_date m = Inr d
           \<and> (\<forall>j<i. \<forall>m'. re_search (pats ! j) line = Some m' \<longrightarrow> (\<exists>e. convert_date m' = Inl e))"
  using assms
proof (induction pats)
  case Nil
  then show ?case by simp
next
  case (Cons p pats)
  have later: "\<exists>i<length (p # pats). \<exists>m. re_search ((p # pats) ! i) line = Some m \<and> convert_date m = Inr d
                \<and> (\<forall>j<i. \<forall>m'. re_search ((p # pats) ! j) line = Some m' \<longrightarrow> (\<exists>e. convert_date m' = Inl e))"
    if rest: "extract_date pats line = Some d"
      and skip: "\<forall>m'. re_search p line = Some m' \<longrightarrow> (\<exists>e. convert_date m' = Inl e)"
  proof -
    from Cons.IH [OF rest] obtain i m where i: "i < length pats"
      and m: "re_search (pats ! i) line = Some m" "convert_date m = Inr d"
      and before: "\<forall>j<i. \<forall>m'. re_search (pats ! j) line = Some m' \<longrightarrow> (\<exists>e. convert_date m' = Inl e)"
      by blast
    have "\<forall>j<Suc i. \<forall>m'. re_search ((p # pats) ! j) line = Some m' \<longrightarrow> (\<exists>e. convert_date m' = Inl e)"
    proof (intro allI impI)
      fix j m' assume "j < Suc i" "re_search ((p # pats) ! j) line = Some m'"
      then show "\<exists>e. convert_date m' = Inl e"
        using skip before by (cases j) (auto simp del: split_paired_All)
    qed
    with i m show ?thesis by (intro exI [of _ "Suc i"]) auto
  qed
  show ?case
  proof (cases "re_search p line")
    case None
    with Cons.prems have "extract_date pats line = Some d" by simp
    from later [OF this] None show ?thesis by simp
  next
    case (Some m)
    show ?thesis
    proof (cases "convert_date m")
      case (Inl e)
      with Some Cons.prems have "extract_date pats line = Some d" by simp
      from later [OF this] Some Inl show ?thesis by simp
    next
      case (Inr d')
      with Some Cons.prems have "d' = d" by simp
      with Some Inr show ?thesis by (intro exI [of _ 0]) auto
    qed
  qed
qed

section \<open>Facts about the import\<close>

lemma find_not_None: "find P xs \<noteq> None \<longleftrightarrow> (\<exists>x\<in>set xs. P x)"
  by (induction xs) auto

lemma import_one_skip:
  assumes "\<exists>r\<in>set (recordings st). original_filename r = py_stem f @ ''.mp3''"
  shows "import_one w persona up st f = st\<lparr>skipped := skipped st + 1\<rparr>"
proof -
  from assms have "find (\<lambda>r. original_filename r = py_stem f @ ''.mp3'') (recordings st) \<noteq> None"
    by (simp only: find_not_None)
  then show ?thesis by (simp add: import_one_def Let_def)
qed

lemma all_skipped:
  assumes "\<forall>f\<in>set files. \<exists>r\<in>set (recordings st). original_filename r = py_stem f @ ''.mp3''"
  shows "foldl (import_one w persona up) st files = st\<lparr>skipped := skipped st + length files\<rparr>"
  using assms
proof (induction files arbitrary: st)
  case Nil
  then show ?case by simp
next
  case (Cons f files)
  from Cons.prems have "import_one w persona up st f = st\<lparr>skipped := skipped st + 1\<rparr>"
    by (intro import_one_skip) simp
  moreover have "foldl (import_one w persona up) (st\<lparr>skipped := skipped st + 1\<rparr>) files
      = st\<lparr>skipped := skipped st + 1\<rparr>\<lparr>skipped := skipped (st\<lparr>skipped := skipped st + 1\<rparr>) + length files\<rparr>"
    by (rule Cons.IH) (use Cons.prems in simp)
  ultimately show ?case by simp
qed

lemma import_one_mono: "set (recordings st) \<subseteq> set (recordings (import_one w persona up st f))"
  by (auto simp: import_one_def Let_def split: option.splits)

lemma foldl_import_mono:
  "set (recordings st) \<subseteq> set (recordings (foldl (import_one w persona up) st files))"
proof (induction files arbitrary: st)
  case Nil
  then show ?case by simp
next
  case (Cons f files)
  from import_one_mono Cons.IH [of "import_one w persona up st f"] show ?case
    by (simp only: foldl_Cons) blast
qed

lemma import_one_count:
  "imported (import_one w persona up st f) = imported st
   \<or> (imported (import_one w persona up st f) = imported st + 1
       \<and> mp3_exists w (py_stem f @ ''.mp3'')
       \<and> (\<exists>r\<in>set (recordings (import_one w persona up st f)).
             original_filename r = py_stem f @ ''.mp3''))"
  by (auto simp: import_one_def Let_def new_recording_def split: option.splits)

lemma foldl_import_count:
  "imported (foldl (import_one w persona up) st files) \<le> imported st + length files
   \<and> (imported (foldl (import_one w persona up) st files) = imported st + length files \<longrightarrow>
        (\<forall>f\<in>set files. mp3_exists w (py_stem f @ ''.mp3'')
            \<and> (\<exists>r\<in>set (recordings (foldl (import_one w persona up) st files)).
                  original_filename r = py_stem f @ ''.mp3'')))"
proof (induction files arbitrary: st)
  case Nil
  then show ?case by simp
next
  case (Cons f files)
  let ?s1 = "import_one w persona up st f"
  let ?fin = "foldl (import_one w persona up) ?s1 files"
  from Cons.IH [of ?s1] have le: "imported ?fin \<le> imported ?s1 + length files"
    and eq: "imported ?fin = imported ?s1 + length files \<Longrightarrow>
        (\<forall>f\<in>set files. mp3_exists w (py_stem f @ ''.mp3'')
            \<and> (\<exists>r\<in>set (recordings ?fin). original_filename r = py_stem f @ ''.mp3''))"
    by blast+
  from import_one_count [of w persona up st f] have s1: "imported ?s1 \<le> imported st + 1" by auto
  have "imported ?fin \<le> imported st + length (f # files)" using le s1 by simp
  moreover have "\<forall>g\<in>set (f # files). mp3_exists w (py_stem g @ ''.mp3'')
            \<and> (\<exists>r\<in>set (recordings ?fin). original_filename r = py_stem g @ ''.mp3'')"
    if full: "imported ?fin = imported st + length (f # files)"
  proof -
    from full le s1 have 1: "imported ?s1 = imported st + 1"
      and 2: "imported ?fin = imported ?s1 + length files" by simp_all
    from 1 import_one_count [of w persona up st f] have "mp3_exists w (py_stem f @ ''.mp3'')"
      and "\<exists>r\<in>set (recordings ?s1). original_filename r = py_stem f @ ''.mp3''" by auto
    moreover have "set (recordings ?s1) \<subseteq> set (recordings ?fin)" by (rule foldl_import_mono)
    ultimately have "mp3_exists w (py_stem f @ ''.mp3'')
       \<and> (\<exists>r\<in>set (recordings ?fin). original_filename r = py_stem f @ ''.mp3'')" by blast
    with eq [OF 2] show ?thesis by simp
  qed
  ultimately show ?case by (simp only: foldl_Cons) blast
qed

lemma all_present_skips_all:
  assumes "\<forall>f\<in>set files. \<exists>r\<in>set (fst db). original_filename r = py_stem f @ ''.mp3''"
  shows "import_otter_export w persona up db files
         = \<lparr>recordings = fst db, segment_rows = snd db,
            upload_calls = [], imported = 0, skipped = length files, errors = 0\<rparr>"
proof -
  from assms have "\<forall>f\<in>set files. \<exists>r\<in>set (recordings \<lparr>recordings = fst db, segment_rows = snd db,
            upload_calls = [], imported = 0, skipped = 0, errors = 0\<rparr>).
           original_filename r = py_stem f @ ''.mp3''"
    by simp
  from all_skipped [OF this, of w persona up] show ?thesis
    by (simp add: import_otter_export_def)
qed

lemma first_run_records:
  assumes "imported (import_otter_export w persona up db files) = length files"
  shows "\<forall>f\<in>set files. \<exists>r\<in>set (recordings (import_otter_export w persona up db files)).
           original_filename r = py_stem f @ ''.mp3''"
  using assms foldl_import_count [of w persona up
      "\<lparr>recordings = fst db, segment_rows = snd db, upload_calls = [],
        imported = 0, skipped = 0, errors = 0\<rparr>" files]
  by (simp add: import_otter_export_def)

section \<open>Facts about the storage keys\<close>

lemma sanitize_length [simp]: "length (sanitize s) = length s"
  by (simp add: sanitize_def)

lemma sanitize_nth:
  "i < length s \<Longrightarrow> sanitize s ! i = (if safe_chr (s ! i) then s ! i else CHR ''_'')"
  by (auto simp: sanitize_def safe_chr_def is_word_def)

lemma sanitize_safe: "list_all safe_chr (sanitize s)"
  by (auto simp: sanitize_def safe_chr_def is_word_def list_all_iff)

lemma sanitize_take: "sanitize (take n s) = take n (sanitize s)"
  by (simp add: sanitize_def take_map)

lemma takeWhile_map_same:
  "(\<And>x. P (f x) = P x) \<Longrightarrow> takeWhile P (map f xs) = map f (takeWhile P xs)"
  by (induction xs) auto

lemma rfind_sanitize: "rfind CHR ''.'' (sanitize s) = rfind CHR ''.'' s"
proof -
  have 1: "(CHR ''.'' \<in> set (sanitize s)) = (CHR ''.'' \<in> set s)"
    by (auto simp: sanitize_def)
  have "takeWhile (\<lambda>x. x \<noteq> CHR ''.'') (rev (sanitize s))
            = sanitize (takeWhile (\<lambda>x. x \<noteq> CHR ''.'') (rev s))"
    unfolding sanitize_def rev_map by (rule takeWhile_map_same) auto
  then have 2: "length (takeWhile (\<lambda>x. x \<noteq> CHR ''.'') (rev (sanitize s)))
            = length (takeWhile (\<lambda>x. x \<noteq> CHR ''.'') (rev s))"
    by simp
  show ?thesis by (simp add: rfind_def 1 2)
qed

lemma takeWhile_shorter:
  assumes "c \<in> set r"
  shows "length (takeWhile (\<lambda>x. x \<noteq> c) r) < length r"
proof -
  have "takeWhile (\<lambda>x. x \<noteq> c) r \<noteq> r"
    using assms by (simp add: takeWhile_eq_all_conv)
  then have "length (takeWhile (\<lambda>x. x \<noteq> c) r) \<noteq> length r"
    by (metis takeWhile_eq_take take_all order_refl)
  with length_takeWhile_le [of "\<lambda>x. x \<noteq> c" r] show ?thesis by linarith
qed

lemma rfind_Some:
  assumes "rfind c s = Some i"
  shows "i < length s \<and> s ! i = c \<and> c \<notin> set (drop (Suc i) s)"
proof -
  let ?t = "takeWhile (\<lambda>x. x \<noteq> c) (rev s)"
  from assms have mem: "c \<in> set s" and i: "i = length s - Suc (length ?t)"
    by (auto simp: rfind_def split: if_splits)
  from mem have lt: "length ?t < length (rev s)" by (intro takeWhile_shorter) simp
  then have "\<not> (rev s ! length ?t \<noteq> c)" by (rule nth_length_takeWhile)
  then have c: "rev s ! length ?t = c" by simp
  from lt have il: "i < length s" by (simp add: i)
  from lt have "rev s ! length ?t = s ! i" by (simp add: i rev_nth)
  with c have at: "s ! i = c" by simp
  from lt have "length s - Suc i = length ?t" by (simp add: i)
  then have "rev (drop (Suc i) s) = take (length ?t) (rev s)" by (simp add: rev_drop)
  also have "\<dots> = ?t" by (simp add: takeWhile_eq_take [symmetric])
  finally have "set (drop (Suc i) s) = set ?t" by (metis set_rev)
  then have "c \<notin> set (drop (Suc i) s)" by (auto dest: set_takeWhileD)
  with il at show ?thesis by simp
qed

lemma code_dot: "code CHR ''.'' = 46"
  by (simp add: code_def)

lemma lower_chr_dot: "lower_chr x = CHR ''.'' \<longleftrightarrow> x = CHR ''.''"
proof (cases "(65 \<le> code x \<and> code x \<le> 90) \<or> (192 \<le> code x \<and> code x \<le> 214)
                     \<or> (216 \<le> code x \<and> code x \<le> 222)")
  case False
  then have "lower_chr x = x" by (simp only: lower_chr_def if_False)
  then show ?thesis by simp
next
  case True
  then have l: "lower_chr x = char_of (code x + 32)" by (simp only: lower_chr_def if_True)
  from True have small: "code x + 32 < 256" by linarith
  have "code (lower_chr x) = (code x + 32) mod 256"
    unfolding l code_def by (rule of_char_of)
  with small have c: "code (lower_chr x) = code x + 32" by simp
  have "lower_chr x \<noteq> CHR ''.''"
  proof
    assume "lower_chr x = CHR ''.''"
    with c code_dot have "code x + 32 = 46" by simp
    with True show False by linarith
  qed
  moreover from True code_dot have "x \<noteq> CHR ''.''" by auto
  ultimately show ?thesis by simp
qed

lemma py_lower_no_dot:
  assumes nd: "CHR ''.'' \<notin> set r"
  shows "CHR ''.'' \<notin> set (py_lower r)"
proof
  assume "CHR ''.'' \<in> set (py_lower r)"
  then obtain x where "x \<in> set r" "lower_chr x = CHR ''.''"
    unfolding py_lower_def by auto
  with nd show False by (simp add: lower_chr_dot)
qed

lemma lstrip_lower_suffix:
  assumes "CHR ''.'' \<notin> set r"
  shows "py_lstrip_chr CHR ''.'' (py_lower (CHR ''.'' # r)) = py_lower r"
proof -
  have 1: "lower_chr CHR ''.'' = CHR ''.''" by (simp add: lower_chr_dot)
  have "dropWhile (\<lambda>x. x = CHR ''.'') (py_lower r) = py_lower r"
    using py_lower_no_dot [OF assms] by (cases "py_lower r") auto
  then show ?thesis
    unfolding py_lstrip_chr_def py_lower_def list.map 1 by simp
qed

lemma batch_key_with_suffix:
  assumes "rfind CHR ''.'' name = Some i" "0 < i" "i < length name - 1"
  shows "py_stem name = take i name"
    and "py_suffix name = CHR ''.'' # drop (Suc i) name"
    and "batch_s3_key name md5_hex =
           ''videos'' @ ''/'' @ sanitize (py_stem name) @ ''_'' @ take 8 md5_hex
             @ ''.'' @ py_lower (drop (Suc i) name)"
proof -
  from rfind_Some [OF assms(1)] have il: "i < length name" and at: "name ! i = CHR ''.''"
    and nd: "CHR ''.'' \<notin> set (drop (Suc i) name)" by simp_all
  show stem: "py_stem name = take i name"
    unfolding py_stem_def using assms by simp
  have "drop i name = name ! i # drop (Suc i) name" using il by (simp add: Cons_nth_drop_Suc)
  then have d: "drop i name = CHR ''.'' # drop (Suc i) name" using at by simp
  show suf: "py_suffix name = CHR ''.'' # drop (Suc i) name"
    unfolding py_suffix_def using assms d by simp
  have ext: "py_lstrip_chr CHR ''.'' (py_lower (py_suffix name)) = py_lower (drop (Suc i) name)"
    unfolding suf by (rule lstrip_lower_suffix [OF nd])
  have "rfind CHR ''.'' (sanitize name) = Some i"
    using assms(1) by (simp only: rfind_sanitize)
  then have "py_rsplit1 CHR ''.'' (sanitize name) = [take i (sanitize name), drop (Suc i) (sanitize name)]"
    by (simp add: py_rsplit1_def)
  then have hd: "py_rsplit1 CHR ''.'' (sanitize name) ! 0 = sanitize (py_stem name)"
    by (simp add: stem sanitize_take)
  show "batch_s3_key name md5_hex =
           ''videos'' @ ''/'' @ sanitize (py_stem name) @ ''_'' @ take 8 md5_hex
             @ ''.'' @ py_lower (drop (Suc i) name)"
    unfolding batch_s3_key_def hd ext by simp
qed

lemma otter_key_form:
  "otter_s3_key filename_stem uuid_hex =
     ''audio/otter_ai'' @ ''/'' @ sanitize filename_stem @ ''_'' @ take 8 uuid_hex @ ''.'' @ ''mp3''"
  by (simp add: otter_s3_key_def)

lemma token_hex:
  assumes "length h = 32" "list_all is_hex h"
  shows "length (take 8 h) = 8 \<and> list_all is_hex (take 8 h)"
  using assms by (auto simp: list_all_iff dest: in_set_takeD)

lemma batch_key_dotfile:
  "batch_s3_key ''.mp4'' md5_hex = ''videos/_'' @ take 8 md5_hex @ ''.''"
  by (simp add: batch_s3_key_def py_rsplit1_def rfind_def sanitize_def py_suffix_def
      py_lstrip_chr_def py_lower_def)

lemma stem_dotfile: "py_stem ''.mp4'' = ''.mp4'' \<and> py_suffix ''.mp4'' = []"
  by (simp add: py_stem_def py_suffix_def rfind_def)

section \<open>The sample documents, parsed\<close>

text \<open>The parser's result, put together from the results of its parts; and the date of
  a line in which the first date pattern finds a long-form date that converts.\<close>

lemma parse_from_pieces:
  assumes "nonempty_lines doc = ps" "3 \<le> length ps"
    and "extract_duration (ps ! 1) = Inr dur"
    and "scan_lines scan_init (drop 6 ps) = Inr s"
    and "add_end_times dur (last_segment s) = segs"
    and "extract_date date_patterns (ps ! 1) = rd"
    and "header_blocks ps 2 ([], []) = (kw, sp)"
  shows "parse_otter_docx stem doc =
           Inr (Some \<lparr>title = ps ! 0, recording_date = rd, duration_seconds = dur,
                       keyword_list = kw, speakers = sp, segments = segs\<rparr>)"
  using assms by (auto simp: parse_otter_docx_def Let_def)

lemma extract_date_first:
  assumes "map_option (\<lambda>m. m_group m 1) (re_search (date_patterns ! 0) line) = Some (Some str)"
    and "CHR '','' \<in> set str" and "strptime_date str Fmt_a_b_d_Y = Inr d"
  shows "extract_date date_patterns line = Some d"
proof -
  define p where "p = date_patterns ! 0"
  from assms(1) obtain m where m: "re_search p line = Some m"
    and g: "m_group m 1 = Some str" by (auto simp: p_def)
  from g assms(2,3) have "convert_date m = Inr d" by (simp add: convert_date_def)
  with m have "extract_date (p # tl date_patterns) line = Some d" by simp
  moreover have "date_patterns = p # tl date_patterns" by (simp add: p_def date_patterns_def)
  ultimately show ?thesis by simp
qed

lemma long_date_converts:
  "strptime_date ''Fri, Dec 05, 2025'' Fmt_a_b_d_Y = Inr \<lparr>year = 2025, month = 12, day = 5\<rparr>"
  by code_simp

lemma sample_parse: "parse_otter_docx ''a'' sample_doc = Inr (Some sample_transcript)"
proof -
  have 1: "nonempty_lines sample_doc = sample_doc"
    by (simp add: nonempty_lines_def sample_doc_def py_strip_def is_space_def code_def)
  have 2: "3 \<le> length sample_doc" by (simp add: sample_doc_def)
  have 3: "extract_duration (sample_doc ! 1) = Inr (Some 1261)" by code_simp
  have 4: "scan_lines scan_init (drop 6 sample_doc) =
      Inr \<lparr>saved = [\<lparr>segment_index = 0, start_time = 5, speaker = Some ''Dan Goldin'',
              seg_text = ''Good morning.''\<rparr>,
            \<lparr>segment_index = 1, start_time = 42, speaker = Some ''Jane Doe'',
              seg_text = ''Thanks. Let us begin.''\<rparr>],
           current_speaker = Some ''Dan Goldin'', current_start = Some 70,
           current_text = [''First item.''], next_index = 2\<rparr>"
    by code_simp
  have 5: "add_end_times (Some 1261) (last_segment
          \<lparr>saved = [\<lparr>segment_index = 0, start_time = 5, speaker = Some ''Dan Goldin'',
              seg_text = ''Good morning.''\<rparr>,
            \<lparr>segment_index = 1, start_time = 42, speaker = Some ''Jane Doe'',
              seg_text = ''Thanks. Let us begin.''\<rparr>],
           current_speaker = Some ''Dan Goldin'', current_start = Some 70,
           current_text = [''First item.''], next_index = 2\<rparr>)
      = segments sample_transcript"
    by code_simp
  have "map_option (\<lambda>m. m_group m 1) (re_search (date_patterns ! 0) (sample_doc ! 1))
          = Some (Some ''Fri, Dec 05, 2025'')"
    by code_simp
  then have 6: "extract_date date_patterns (sample_doc ! 1) = Some \<lparr>year = 2025, month = 12, day = 5\<rparr>"
    by (rule extract_date_first) (simp_all add: long_date_converts)
  have 7: "header_blocks sample_doc 2 ([], []) = ([''ai'', ''policy'', ''nasa''], [''Dan Goldin'', ''Jane Doe''])"
    by code_simp
  have 8: "sample_doc ! 0 = title sample_transcript" by (simp add: sample_doc_def sample_transcript_def)
  from parse_from_pieces [OF 1 2 3 4 5 6 7, of "''a''"] 8 show ?thesis
    by (simp add: sample_transcript_def)
qed

lemma zero_duration_parse: "parse_otter_docx ''a'' zero_duration_doc = Inr (Some zero_duration_transcript)"
proof -
  have 1: "nonempty_lines zero_duration_doc = zero_duration_doc"
    by (simp add: nonempty_lines_def zero_duration_doc_def py_strip_def is_space_def code_def)
  have 2: "3 \<le> length zero_duration_doc" by (simp add: zero_duration_doc_def)
  have 3: "extract_duration (zero_duration_doc ! 1) = Inr (Some 0)" by code_simp
  have 4: "scan_lines scan_init (drop 6 zero_duration_doc) =
      Inr \<lparr>saved = [],
           current_speaker = Some ''Dan Goldin'', current_start = Some 5,
           current_text = [''Testing.''], next_index = 0\<rparr>"
    by code_simp
  have 5: "add_end_times (Some 0) (last_segment
          \<lparr>saved = [],
           current_speaker = Some ''Dan Goldin'', current_start = Some 5,
           current_text = [''Testing.''], next_index = 0\<rparr>)
      = segments zero_duration_transcript"
    by code_simp
  have "map_option (\<lambda>m. m_group m 1) (re_search (date_patterns ! 0) (zero_duration_doc ! 1))
          = Some (Some ''Fri, Dec 05, 2025'')"
    by code_simp
  then have 6: "extract_date date_patterns (zero_duration_doc ! 1) = Some \<lparr>year = 2025, month = 12, day = 5\<rparr>"
    by (rule extract_date_first) (simp_all add: long_date_converts)
  have 7: "header_blocks zero_duration_doc 2 ([], []) = ([''test''], [''Dan Goldin''])"
    by code_simp
  have 8: "zero_duration_doc ! 0 = title zero_duration_transcript" by (simp add: zero_duration_doc_def zero_duration_transcript_def)
  from parse_from_pieces [OF 1 2 3 4 5 6 7, of "''a''"] 8 show ?thesis
    by (simp add: zero_duration_transcript_def)
qed

lemma out_of_order_parse: "parse_otter_docx ''a'' out_of_order_doc = Inr (Some out_of_order_transcript)"
proof -
  have 1: "nonempty_lines out_of_order_doc = out_of_order_doc"
    by (simp add: nonempty_lines_def out_of_order_doc_def py_strip_def is_space_def code_def)
  have 2: "3 \<le> length out_of_order_doc" by (simp add: out_of_order_doc_def)
  have 3: "extract_duration (out_of_order_doc ! 1) = Inr (Some 1261)" by code_simp
  have 4: "scan_lines scan_init (drop 6 out_of_order_doc) =
      Inr \<lparr>saved = [\<lparr>segment_index = 0, start_time = 30, speaker = Some ''Alice'',
              seg_text = ''Hello.''\<rparr>],
           current_speaker = Some ''Bob'', current_start = Some 10,
           current_text = [''Goodbye.''], next_index = 1\<rparr>"
    by code_simp
  have 5: "add_end_times (Some 1261) (last_segment
          \<lparr>saved = [\<lparr>segment_index = 0, start_time = 30, speaker = Some ''Alice'',
              seg_text = ''Hello.''\<rparr>],
           current_speaker = Some ''Bob'', current_start = Some 10,
           current_text = [''Goodbye.''], next_index = 1\<rparr>)
      = segments out_of_order_transcript"
    by code_simp
  have "map_option (\<lambda>m. m_group m 1) (re_search (date_patterns ! 0) (out_of_order_doc ! 1))
          = Some (Some ''Fri, Dec 05, 2025'')"
    by code_simp
  then have 6: "extract_date date_patterns (out_of_order_doc ! 1) = Some \<lparr>year = 2025, month = 12, day = 5\<rparr>"
    by (rule extract_date_first) (simp_all add: long_date_converts)
  have 7: "header_blocks out_of_order_doc 2 ([], []) = ([''test''], [''Alice'', ''Bob''])"
    by code_simp
  have 8: "out_of_order_doc ! 0 = title out_of_order_transcript" by (simp add: out_of_order_doc_def out_of_order_transcript_def)
  from parse_from_pieces [OF 1 2 3 4 5 6 7, of "''a''"] 8 show ?thesis
    by (simp add: out_of_order_transcript_def)
qed

lemma bare_timestamp_parse: "parse_otter_docx ''a'' bare_timestamp_doc = Inr (Some bare_timestamp_transcript)"
proof -
  have 1: "nonempty_lines bare_timestamp_doc = bare_timestamp_doc"
    by (simp add: nonempty_lines_def bare_timestamp_doc_def py_strip_def is_space_def code_def)
  have 2: "3 \<le> length bare_timestamp_doc" by (simp add: bare_timestamp_doc_def)
  have 3: "extract_duration (bare_timestamp_doc ! 1) = Inr (Some 1261)" by code_simp
  have 4: "scan_lines scan_init (drop 6 bare_timestamp_doc) =
      Inr \<lparr>saved = [\<lparr>segment_index = 0, start_time = 5, speaker = Some ''Dan Goldin'',
              seg_text = ''Good morning.''\<rparr>,
            \<lparr>segment_index = 1, start_time = 16, speaker = Some ''0'',
              seg_text = ''Welcome back.''\<rparr>],
           current_speaker = Some ''1'', current_start = Some 5,
           current_text = [''Last point.''], next_index = 2\<rparr>"
    by code_simp
  have 5: "add_end_times (Some 1261) (last_segment
          \<lparr>saved = [\<lparr>segment_index = 0, start_time = 5, speaker = Some ''Dan Goldin'',
              seg_text = ''Good morning.''\<rparr>,
            \<lparr>segment_index = 1, start_time = 16, speaker = Some ''0'',
              seg_text = ''Welcome back.''\<rparr>],
           current_speaker = Some ''1'', current_start = Some 5,
           current_text = [''Last point.''], next_index = 2\<rparr>)
      = segments bare_timestamp_transcript"
    by code_simp
  have "map_option (\<lambda>m. m_group m 1) (re_search (date_patterns ! 0) (bare_timestamp_doc ! 1))
          = Some (Some ''Fri, Dec 05, 2025'')"
    by code_simp
  then have 6: "extract_date date_patterns (bare_timestamp_doc ! 1) = Some \<lparr>year = 2025, month = 12, day = 5\<rparr>"
    by (rule extract_date_first) (simp_all add: long_date_converts)
  have 7: "header_blocks bare_timestamp_doc 2 ([], []) = ([''ai'', ''policy'', ''nasa''], [''Dan Goldin'', ''Jane Doe''])"
    by code_simp
  have 8: "bare_timestamp_doc ! 0 = title bare_timestamp_transcript" by (simp add: bare_timestamp_doc_def bare_timestamp_transcript_def)
  from parse_from_pieces [OF 1 2 3 4 5 6 7, of "''a''"] 8 show ?thesis
    by (simp add: bare_timestamp_transcript_def)
qed

lemma two_dates_parse: "parse_otter_docx ''a'' two_dates_doc = Inr (Some two_dates_transcript)"
proof -
  have 1: "nonempty_lines two_dates_doc = two_dates_doc"
    by (simp add: nonempty_lines_def two_dates_doc_def two_dates_line_def py_strip_def is_space_def code_def)
  have 2: "3 \<le> length two_dates_doc" by (simp add: two_dates_doc_def)
  have 3: "extract_duration (two_dates_doc ! 1) = Inr (Some 1261)" by code_simp
  have 4: "scan_lines scan_init (drop 6 two_dates_doc) =
      Inr \<lparr>saved = [],
           current_speaker = Some ''Dan Goldin'', current_start = Some 5,
           current_text = [''Welcome.''], next_index = 0\<rparr>"
    by code_simp
  have 5: "add_end_times (Some 1261) (last_segment
          \<lparr>saved = [],
           current_speaker = Some ''Dan Goldin'', current_start = Some 5,
           current_text = [''Welcome.''], next_index = 0\<rparr>)
      = segments two_dates_transcript"
    by code_simp
  have 6: "extract_date date_patterns (two_dates_doc ! 1) = Some \<lparr>year = 2025, month = 9, day = 9\<rparr>"
    by code_simp
  have 7: "header_blocks two_dates_doc 2 ([], []) = ([''plan''], [''Dan Goldin''])"
    by code_simp
  have 8: "two_dates_doc ! 0 = title two_dates_transcript" by (simp add: two_dates_doc_def two_dates_transcript_def)
  from parse_from_pieces [OF 1 2 3 4 5 6 7, of "''a''"] 8 show ?thesis
    by (simp add: two_dates_transcript_def)
qed

lemma brief_parse: "parse_otter_docx stem brief_doc = Inr (Some brief_transcript)"
proof -
  have 1: "nonempty_lines brief_doc = brief_doc"
    by (simp add: nonempty_lines_def brief_doc_def py_strip_def is_space_def code_def)
  have 2: "3 \<le> length brief_doc" by (simp add: brief_doc_def)
  have 3: "extract_duration (brief_doc ! 1) = Inr (Some 45)" by code_simp
  have 4: "scan_lines scan_init (drop 6 brief_doc) =
      Inr \<lparr>saved = [],
           current_speaker = None, current_start = None,
           current_text = [], next_index = 0\<rparr>"
    by code_simp
  have 5: "add_end_times (Some 45) (last_segment
          \<lparr>saved = [],
           current_speaker = None, current_start = None,
           current_text = [], next_index = 0\<rparr>)
      = segments brief_transcript"
    by code_simp
  have "map_option (\<lambda>m. m_group m 1) (re_search (date_patterns ! 0) (brief_doc ! 1))
          = Some (Some ''Fri, Dec 05, 2025'')"
    by code_simp
  then have 6: "extract_date date_patterns (brief_doc ! 1) = Some \<lparr>year = 2025, month = 12, day = 5\<rparr>"
    by (rule extract_date_first) (simp_all add: long_date_converts)
  have 7: "header_blocks brief_doc 2 ([], []) = ([], [])"
    by code_simp
  have 8: "brief_doc ! 0 = title brief_transcript" by (simp add: brief_doc_def brief_transcript_def)
  from parse_from_pieces [OF 1 2 3 4 5 6 7, of stem] 8 show ?thesis
    by (simp add: brief_transcript_def)
qed

lemma sample_long: "3 \<le> length (nonempty_lines sample_doc)"
  by (simp add: nonempty_lines_def sample_doc_def py_strip_def is_space_def code_def)

lemma sample_stems: "py_stem ''sync.docx'' = ''sync''" "py_stem ''retro.docx'' = ''retro''"
  by code_simp+

lemma sample_first_run:
  "imported (import_otter_export sample_world None True ([], []) sample_files)
     = length sample_files"
  by (simp add: import_otter_export_def sample_files_def import_one_def Let_def parse_file_def
      sample_world_def brief_parse sample_stems new_recording_def)

text \<open>The timestamp pattern on a labelled line, on bare timestamps and on a text line.\<close>

lemma timestamp_pattern_labelled:
  "re_match timestamp_pattern ''Alice  00:16''
     = Some (''Alice  00:16'', [], [(2, ''00:16''), (1, ''Alice'')])"
  by code_simp

lemma timestamp_pattern_one_digit:
  "re_match timestamp_pattern ''0:16'' = Some (''0:16'', [], [(2, ''0:16'')])"
  by code_simp

lemma timestamp_pattern_hours:
  "re_match timestamp_pattern ''1:21:01'' = Some (''1:21:01'', [], [(2, ''21:01''), (1, ''1:'')])"
  by code_simp

lemma timestamp_pattern_text: "re_match timestamp_pattern ''Good morning.'' = None"
  by code_simp

section \<open>The claims\<close>

text \<open>
  C1, as amended. In a parsed transcript the end time of every segment but the last is the
  start time of the next one. The end time of the last segment is the duration recovered
  from the header when that duration is not zero; it is the segment's start time plus 30
  seconds when no duration was recovered or the recovered duration is zero.
\<close>

theorem end_times_contiguous_and_last:
  assumes "parse_otter_docx stem doc = Inr (Some t)"
  shows "(\<forall>i. i + 1 < length (segments t) \<longrightarrow>
            end_time (segments t ! i) = start_time (segments t ! (i + 1)))
       \<and> (segments t \<noteq> [] \<longrightarrow>
            end_time (last (segments t)) =
              (case duration_seconds t of
                 Some v \<Rightarrow> if v \<noteq> 0 then v else start_time (last (segments t)) + 30
               | None \<Rightarrow> start_time (last (segments t)) + 30))"
proof -
  from parse_result [OF assms] obtain s where
    seg: "segments t = add_end_times (duration_seconds t) (last_segment s)" by blast
  have "\<And>i. i + 1 < length (segments t) \<Longrightarrow>
          end_time (segments t ! i) = start_time (segments t ! (i + 1))"
    unfolding seg by (rule add_end_times_contiguous) simp
  moreover have "segments t \<noteq> [] \<Longrightarrow> end_time (last (segments t)) =
              (case duration_seconds t of
                 Some v \<Rightarrow> if v \<noteq> 0 then v else start_time (last (segments t)) + 30
               | None \<Rightarrow> start_time (last (segments t)) + 30)"
    unfolding seg by (rule add_end_times_last) (auto simp: add_end_times_def)
  ultimately show ?thesis by blast
qed

theorem end_times_contiguous_and_last_witness:
  "parse_otter_docx ''a'' sample_doc = Inr (Some sample_transcript)
   \<and> end_time (segments sample_transcript ! 0) = start_time (segments sample_transcript ! 1)
   \<and> end_time (segments sample_transcript ! 1) = start_time (segments sample_transcript ! 2)
   \<and> end_time (last (segments sample_transcript)) = 1261"
proof -
  have l: "length (segments sample_transcript) = 3" "segments sample_transcript \<noteq> []"
    and d: "duration_seconds sample_transcript = Some 1261"
    by (simp_all add: sample_transcript_def)
  from end_times_contiguous_and_last [OF sample_parse]
  have c: "\<And>i. i + 1 < length (segments sample_transcript) \<Longrightarrow>
             end_time (segments sample_transcript ! i)
               = start_time (segments sample_transcript ! (i + 1))"
    and e: "end_time (last (segments sample_transcript)) =
              (case duration_seconds sample_transcript of
                 Some v \<Rightarrow> if v \<noteq> 0 then v else start_time (last (segments sample_transcript)) + 30
               | None \<Rightarrow> start_time (last (segments sample_transcript)) + 30)"
    using l(2) by blast+
  from c [of 0] c [of 1] e l d sample_parse show ?thesis by (simp add: numeral_2_eq_2)
qed

text \<open>
  C1, as stated, fails: the header of \<open>zero_duration_doc\<close> ends in the duration \<open>0:00\<close>, so
  a duration (zero seconds) is recovered, yet the last segment ends at its start time plus
  30 seconds and not at the recovered duration.
\<close>

theorem zero_duration_counterexample:
  "parse_otter_docx ''a'' zero_duration_doc = Inr (Some zero_duration_transcript)
   \<and> duration_seconds zero_duration_transcript = Some 0
   \<and> start_time (last (segments zero_duration_transcript)) = 5
   \<and> end_time (last (segments zero_duration_transcript)) = 35"
  using zero_duration_parse by (simp add: zero_duration_transcript_def)

text \<open>
  C2. A document with fewer than three non-empty trimmed lines is rejected: the parser
  returns \<open>None\<close> and no transcript. A document with at least three such lines is never
  rejected that way: the parser returns a transcript (and raises nothing).
\<close>

theorem short_document_rejected:
  "(length (nonempty_lines doc) < 3 \<longrightarrow> parse_otter_docx stem doc = Inr None)
   \<and> (3 \<le> length (nonempty_lines doc) \<longrightarrow> (\<exists>t. parse_otter_docx stem doc = Inr (Some t)))"
  using parse_short parse_total by blast

theorem short_document_rejected_witness:
  "length (nonempty_lines [''Title'', ''   '', ''0:05'']) < 3
   \<and> parse_otter_docx ''a'' [''Title'', ''   '', ''0:05''] = Inr None
   \<and> 3 \<le> length (nonempty_lines sample_doc)
   \<and> (\<exists>t. parse_otter_docx ''a'' sample_doc = Inr (Some t))"
proof -
  have short: "length (nonempty_lines [''Title'', ''   '', ''0:05'']) < 3" by code_simp
  from short_document_rejected [of "[''Title'', ''   '', ''0:05'']" "''a''"]
       short_document_rejected [of sample_doc "''a''"] short sample_long
  show ?thesis by blast
qed

text \<open>
  C3. For a document with at least three non-empty lines the parser returns a transcript
  whose segments carry, in list order, the indices 0, 1, ..., N - 1, where N is the number
  of segments.
\<close>

theorem segment_indices_sequential:
  assumes "3 \<le> length (nonempty_lines doc)"
  shows "\<exists>t. parse_otter_docx stem doc = Inr (Some t)
             \<and> map segment_index (segments t) = [0..<length (segments t)]"
proof -
  from parse_total [OF assms] obtain t where t: "parse_otter_docx stem doc = Inr (Some t)"
    by blast
  from parse_indices [OF t] t show ?thesis by blast
qed

theorem segment_indices_sequential_witness:
  "3 \<le> length (nonempty_lines sample_doc)
   \<and> (\<exists>t. parse_otter_docx ''a'' sample_doc = Inr (Some t)
            \<and> map segment_index (segments t) = [0..<length (segments t)])"
  using segment_indices_sequential [OF sample_long, of "''a''"] sample_long by blast

text \<open>
  C4, as amended. In a parsed transcript a segment other than the last has an end time not
  below its start time exactly when the next segment does not start before it; the last
  segment has an end time not below its start time exactly when no duration was recovered,
  or the recovered duration is zero, or it is not below the segment's start time. The
  parser neither reorders nor rejects timestamps that go backwards.
\<close>

theorem end_not_before_start_iff:
  assumes "parse_otter_docx stem doc = Inr (Some t)"
  shows "(\<forall>i. i + 1 < length (segments t) \<longrightarrow>
            (start_time (segments t ! i) \<le> end_time (segments t ! i)
              \<longleftrightarrow> start_time (segments t ! i) \<le> start_time (segments t ! (i + 1))))
       \<and> (segments t \<noteq> [] \<longrightarrow>
            (start_time (last (segments t)) \<le> end_time (last (segments t))
              \<longleftrightarrow> (case duration_seconds t of
                     Some v \<Rightarrow> v = 0 \<or> start_time (last (segments t)) \<le> v
                   | None \<Rightarrow> True)))"
proof -
  from parse_result [OF assms] obtain s where
    seg: "segments t = add_end_times (duration_seconds t) (last_segment s)" by blast
  have "\<And>i. i + 1 < length (segments t) \<Longrightarrow>
          end_time (segments t ! i) = start_time (segments t ! (i + 1))"
    unfolding seg by (rule add_end_times_contiguous) simp
  moreover have "segments t \<noteq> [] \<Longrightarrow> end_time (last (segments t)) =
              (case duration_seconds t of
                 Some v \<Rightarrow> if v \<noteq> 0 then v else start_time (last (segments t)) + 30
               | None \<Rightarrow> start_time (last (segments t)) + 30)"
    unfolding seg by (rule add_end_times_last) (auto simp: add_end_times_def)
  ultimately show ?thesis by (auto split: option.splits)
qed

theorem end_not_before_start_iff_witness:
  "parse_otter_docx ''a'' sample_doc = Inr (Some sample_transcript)
   \<and> start_time (segments sample_transcript ! 0) \<le> start_time (segments sample_transcript ! 1)
   \<and> start_time (segments sample_transcript ! 0) \<le> end_time (segments sample_transcript ! 0)
   \<and> start_time (last (segments sample_transcript)) \<le> 1261
   \<and> start_time (last (segments sample_transcript)) \<le> end_time (last (segments sample_transcript))"
proof -
  have l: "0 + 1 < length (segments sample_transcript)" "segments sample_transcript \<noteq> []"
    and d: "duration_seconds sample_transcript = Some 1261"
    and o: "start_time (segments sample_transcript ! 0) \<le> start_time (segments sample_transcript ! 1)"
      "start_time (last (segments sample_transcript)) \<le> 1261"
    by (simp_all add: sample_transcript_def)
  from end_not_before_start_iff [OF sample_parse]
  have c: "start_time (segments sample_transcript ! 0) \<le> end_time (segments sample_transcript ! 0)
             \<longleftrightarrow> start_time (segments sample_transcript ! 0)
                   \<le> start_time (segments sample_transcript ! (0 + 1))"
    and e: "start_time (last (segments sample_transcript)) \<le> end_time (last (segments sample_transcript))
              \<longleftrightarrow> (case duration_seconds sample_transcript of
                     Some v \<Rightarrow> v = 0 \<or> start_time (last (segments sample_transcript)) \<le> v
                   | None \<Rightarrow> True)"
    using l by blast+
  from c e d o sample_parse show ?thesis by simp
qed

text \<open>
  C4, as stated, fails: in \<open>out_of_order_doc\<close> the second timestamp line (0:10) is earlier
  than the first (0:30), and the first segment ends before it starts.
\<close>

theorem end_before_start_counterexample:
  "parse_otter_docx ''a'' out_of_order_doc = Inr (Some out_of_order_transcript)
   \<and> start_time (segments out_of_order_transcript ! 0) = 30
   \<and> end_time (segments out_of_order_transcript ! 0) = 10"
  using out_of_order_parse by (simp add: out_of_order_transcript_def)

text \<open>
  C5, as amended. A date pattern that matches the date line but whose matched text does
  not convert to a calendar date is passed over, and the remaining patterns are still
  tried. The recording date of a parsed transcript is the conversion of the first
  pattern, in order, that matches and converts; it is unset exactly when every pattern
  that matches the date line fails to convert.
\<close>

theorem failed_conversion_tries_next:
  assumes "parse_otter_docx stem doc = Inr (Some t)"
  shows "(re_search pattern date_line = Some m \<and> convert_date m = Inl e \<longrightarrow>
            extract_date (pattern # rest) date_line = extract_date rest date_line)
       \<and> (recording_date t = None \<longleftrightarrow>
            (\<forall>p\<in>set date_patterns. \<forall>m'. re_search p (nonempty_lines doc ! 1) = Some m' \<longrightarrow>
                (\<exists>e'. convert_date m' = Inl e')))
       \<and> (\<forall>d. recording_date t = Some d \<longrightarrow>
            (\<exists>i<length date_patterns. \<exists>m'.
                re_search (date_patterns ! i) (nonempty_lines doc ! 1) = Some m'
                \<and> convert_date m' = Inr d
                \<and> (\<forall>j<i. \<forall>m''. re_search (date_patterns ! j) (nonempty_lines doc ! 1) = Some m''
                      \<longrightarrow> (\<exists>e'. convert_date m'' = Inl e'))))"
proof -
  from parse_result [OF assms]
  have r: "recording_date t = extract_date date_patterns (nonempty_lines doc ! 1)" by blast
  have 1: "re_search pattern date_line = Some m \<and> convert_date m = Inl e \<longrightarrow>
            extract_date (pattern # rest) date_line = extract_date rest date_line"
    by simp
  have 2: "recording_date t = None \<longleftrightarrow>
            (\<forall>p\<in>set date_patterns. \<forall>m'. re_search p (nonempty_lines doc ! 1) = Some m' \<longrightarrow>
                (\<exists>e'. convert_date m' = Inl e'))"
    unfolding r by (rule extract_date_None_iff)
  have 3: "\<forall>d. recording_date t = Some d \<longrightarrow>
            (\<exists>i<length date_patterns. \<exists>m'.
                re_search (date_patterns ! i) (nonempty_lines doc ! 1) = Some m'
                \<and> convert_date m' = Inr d
                \<and> (\<forall>j<i. \<forall>m''. re_search (date_patterns ! j) (nonempty_lines doc ! 1) = Some m''
                      \<longrightarrow> (\<exists>e'. convert_date m'' = Inl e')))"
    unfolding r using extract_date_Some by blast
  from 1 2 3 show ?thesis by (intro conjI)
qed

theorem failed_conversion_tries_next_witness:
  "parse_otter_docx ''a'' two_dates_doc = Inr (Some two_dates_transcript)
   \<and> recording_date two_dates_transcript = Some \<lparr>year = 2025, month = 9, day = 9\<rparr>
   \<and> (\<exists>i<length date_patterns. \<exists>m.
         re_search (date_patterns ! i) (nonempty_lines two_dates_doc ! 1) = Some m
         \<and> convert_date m = Inr \<lparr>year = 2025, month = 9, day = 9\<rparr>)"
proof -
  have d: "recording_date two_dates_transcript = Some \<lparr>year = 2025, month = 9, day = 9\<rparr>"
    by (simp add: two_dates_transcript_def)
  from failed_conversion_tries_next [OF two_dates_parse] d
  have "\<exists>i<length date_patterns. \<exists>m.
         re_search (date_patterns ! i) (nonempty_lines two_dates_doc ! 1) = Some m
         \<and> convert_date m = Inr \<lparr>year = 2025, month = 9, day = 9\<rparr>
         \<and> (\<forall>j<i. \<forall>m''. re_search (date_patterns ! j) (nonempty_lines two_dates_doc ! 1) = Some m''
               \<longrightarrow> (\<exists>e'. convert_date m'' = Inl e'))"
    by blast
  then have "\<exists>i<length date_patterns. \<exists>m.
         re_search (date_patterns ! i) (nonempty_lines two_dates_doc ! 1) = Some m
         \<and> convert_date m = Inr \<lparr>year = 2025, month = 9, day = 9\<rparr>"
    by blast
  with two_dates_parse d show ?thesis by blast
qed

text \<open>
  C5, as stated, fails: on the date line of \<open>two_dates_doc\<close> the first pattern matches
  \<open>Tue, Sept 09, 2025\<close>, which does not convert; the claim has the recording date left
  unset, but the second pattern is tried, matches \<open>2025-09-09\<close>, and sets it.
\<close>

theorem later_pattern_sets_date_counterexample:
  "two_dates_doc ! 1 = two_dates_line
   \<and> map_option convert_date (re_search (date_patterns ! 0) two_dates_line)
       = Some (Inl ValueError)
   \<and> parse_otter_docx ''a'' two_dates_doc = Inr (Some two_dates_transcript)
   \<and> recording_date two_dates_transcript = Some \<lparr>year = 2025, month = 9, day = 9\<rparr>"
proof -
  have 1: "two_dates_doc ! 1 = two_dates_line" by (simp add: two_dates_doc_def)
  have 2: "map_option convert_date (re_search (date_patterns ! 0) two_dates_line)
             = Some (Inl ValueError)"
    by code_simp
  have 3: "recording_date two_dates_transcript = Some \<lparr>year = 2025, month = 9, day = 9\<rparr>"
    by (simp add: two_dates_transcript_def)
  from 1 2 3 two_dates_parse show ?thesis by (intro conjI)
qed

text \<open>
  C6. A header line that ends in the duration token \<open>21:01\<close> (the token follows the start
  of the line or a character that is neither a digit nor a colon) gives 1261 seconds, and
  one that ends in \<open>1:21:01\<close> gives 4861 seconds. The extraction of the duration never
  raises: a line in which the pattern finds no token, such as a non-empty line whose last
  character is neither a digit nor white space, leaves the duration \<open>None\<close>, and any other
  line gives a number of seconds that is not negative. The duration of a parsed transcript
  is the one extracted from its second line.
\<close>

theorem duration_from_header:
  "(p = [] \<or> (\<not> is_digit (last p) \<and> last p \<noteq> CHR '':'') \<longrightarrow>
      extract_duration (p @ ''21:01'') = Inr (Some 1261)
      \<and> extract_duration (p @ ''1:21:01'') = Inr (Some 4861))
   \<and> (re_search duration_pattern line = None \<longrightarrow> extract_duration line = Inr None)
   \<and> (re_search duration_pattern line \<noteq> None \<longrightarrow>
        (\<exists>v. extract_duration line = Inr (Some v) \<and> 0 \<le> v))
   \<and> (line' \<noteq> [] \<and> \<not> is_digit (last line') \<and> \<not> is_space (last line') \<longrightarrow>
        extract_duration line' = Inr None)
   \<and> (parse_otter_docx stem doc = Inr (Some t) \<longrightarrow>
        extract_duration (nonempty_lines doc ! 1) = Inr (duration_seconds t))"
proof (intro conjI impI)
  assume "p = [] \<or> (\<not> is_digit (last p) \<and> last p \<noteq> CHR '':'')"
  then show "extract_duration (p @ ''21:01'') = Inr (Some 1261)"
    and "extract_duration (p @ ''1:21:01'') = Inr (Some 4861)"
    by (rule duration_2101, rule duration_12101)
next
  assume "re_search duration_pattern line = None"
  with extract_duration_cases show "extract_duration line = Inr None" by blast
next
  assume "re_search duration_pattern line \<noteq> None"
  with extract_duration_cases show "\<exists>v. extract_duration line = Inr (Some v) \<and> 0 \<le> v" by blast
next
  assume "line' \<noteq> [] \<and> \<not> is_digit (last line') \<and> \<not> is_space (last line')"
  then have "re_search duration_pattern line' = None" by (intro no_token_no_match) simp_all
  with extract_duration_cases show "extract_duration line' = Inr None" by blast
next
  assume "parse_otter_docx stem doc = Inr (Some t)"
  from parse_result [OF this]
  show "extract_duration (nonempty_lines doc ! 1) = Inr (duration_seconds t)" by blast
qed

theorem duration_from_header_witness:
  "\<not> is_digit (last ''Fri, Dec 05, 2025 10:47AM - '')
   \<and> last ''Fri, Dec 05, 2025 10:47AM - '' \<noteq> CHR '':''
   \<and> extract_duration (''Fri, Dec 05, 2025 10:47AM - '' @ ''21:01'') = Inr (Some 1261)
   \<and> extract_duration (''Fri, Dec 05, 2025 10:47AM - '' @ ''1:21:01'') = Inr (Some 4861)
   \<and> re_search duration_pattern ''Fri, Dec 05, 2025'' = None
   \<and> extract_duration ''Fri, Dec 05, 2025'' = Inr None
   \<and> \<not> is_digit (last ''10:47AM'') \<and> \<not> is_space (last ''10:47AM'')
   \<and> extract_duration ''10:47AM'' = Inr None
   \<and> parse_otter_docx ''a'' sample_doc = Inr (Some sample_transcript)
   \<and> extract_duration (nonempty_lines sample_doc ! 1) = Inr (duration_seconds sample_transcript)"
proof -
  have p: "\<not> is_digit (last ''Fri, Dec 05, 2025 10:47AM - '')"
    "last ''Fri, Dec 05, 2025 10:47AM - '' \<noteq> CHR '':''"
    by (simp_all add: is_digit_def code_def)
  have n: "re_search duration_pattern ''Fri, Dec 05, 2025'' = None" by code_simp
  have a: "''10:47AM'' \<noteq> []" "\<not> is_digit (last ''10:47AM'')" "\<not> is_space (last ''10:47AM'')"
    by (simp_all add: is_digit_def is_space_def code_def)
  from duration_from_header [of "''Fri, Dec 05, 2025 10:47AM - ''" "''Fri, Dec 05, 2025''"
      "''10:47AM''" "''a''" sample_doc sample_transcript] p n a sample_parse
  show ?thesis by simp
qed

text \<open>
  C7. The claim holds for a match that has no speaker part: such a line leaves the current
  speaker as it was (\<open>unlabelled_keeps_speaker\<close>), and the speaker changes only at a match
  with a non-empty speaker part (\<open>speaker_change_needs_label\<close>). But the pattern gives
  a speaker part to every bare timestamp whose first field has two digits or more
  (\<open>bare_timestamp_first_digit\<close>, \<open>bare_timestamp_step\<close>): its lazy first group takes the
  first digit of \<open>00:16\<close>, the form that the source's comment names as a line without a
  speaker, so the segment started by that line gets the speaker \<open>0\<close> instead of the one
  before; and \<open>10:05\<close> is read as speaker \<open>1\<close> at 0:05.
\<close>

theorem bare_timestamp_sets_speaker:
  "parse_otter_docx ''a'' bare_timestamp_doc = Inr (Some bare_timestamp_transcript)
   \<and> map speaker (segments bare_timestamp_transcript)
       = [Some ''Dan Goldin'', Some ''0'', Some ''1'']
   \<and> map start_time (segments bare_timestamp_transcript) = [5, 16, 5]
   \<and> (\<exists>m. re_match timestamp_pattern ''00:16'' = Some m
          \<and> m_group m 1 = Some ''0'' \<and> m_group m 2 = Some ''0:16'')"
proof -
  have 1: "map speaker (segments bare_timestamp_transcript)
             = [Some ''Dan Goldin'', Some ''0'', Some ''1'']"
    and 2: "map start_time (segments bare_timestamp_transcript) = [5, 16, 5]"
    by (simp_all add: bare_timestamp_transcript_def)
  have "re_match timestamp_pattern ''00:16'' = Some (''00:16'', [], [(2, ''0:16''), (1, ''0'')])"
    by code_simp
  then have 3: "\<exists>m. re_match timestamp_pattern ''00:16'' = Some m
          \<and> m_group m 1 = Some ''0'' \<and> m_group m 2 = Some ''0:16''"
    by (simp add: m_group_def)
  from bare_timestamp_parse 1 2 3 show ?thesis by (intro conjI)
qed

text \<open>
  C8. A document whose audio file name already has a recording in the catalog is skipped:
  the turn of the loop changes nothing but the skip count, so it makes no upload call and
  adds no row. Hence an import over a directory every document of which has its recording
  in the catalog adds nothing, uploads nothing and counts every document as skipped; and
  that is the case for a second import after a first one that imported every document.
\<close>

theorem already_imported_is_skipped:
  "((\<exists>r\<in>set (recordings st). original_filename r = py_stem f @ ''.mp3'') \<longrightarrow>
      import_one w persona up st f = st\<lparr>skipped := skipped st + 1\<rparr>)
   \<and> ((\<forall>g\<in>set files. \<exists>r\<in>set (fst db). original_filename r = py_stem g @ ''.mp3'') \<longrightarrow>
      import_otter_export w persona up db files
        = \<lparr>recordings = fst db, segment_rows = snd db, upload_calls = [],
           imported = 0, skipped = length files, errors = 0\<rparr>)
   \<and> (imported (import_otter_export w persona up db files) = length files \<longrightarrow>
      import_otter_export w2 persona2 up2
          (recordings (import_otter_export w persona up db files),
           segment_rows (import_otter_export w persona up db files)) files
        = \<lparr>recordings = recordings (import_otter_export w persona up db files),
           segment_rows = segment_rows (import_otter_export w persona up db files),
           upload_calls = [], imported = 0, skipped = length files, errors = 0\<rparr>)"
proof (intro conjI impI)
  assume "\<exists>r\<in>set (recordings st). original_filename r = py_stem f @ ''.mp3''"
  then show "import_one w persona up st f = st\<lparr>skipped := skipped st + 1\<rparr>"
    by (rule import_one_skip)
next
  assume "\<forall>g\<in>set files. \<exists>r\<in>set (fst db). original_filename r = py_stem g @ ''.mp3''"
  then show "import_otter_export w persona up db files
        = \<lparr>recordings = fst db, segment_rows = snd db, upload_calls = [],
           imported = 0, skipped = length files, errors = 0\<rparr>"
    by (rule all_present_skips_all)
next
  let ?r1 = "import_otter_export w persona up db files"
  assume "imported ?r1 = length files"
  from first_run_records [OF this]
  have "\<forall>g\<in>set files. \<exists>r\<in>set (fst (recordings ?r1, segment_rows ?r1)).
          original_filename r = py_stem g @ ''.mp3''"
    by simp
  from all_present_skips_all [OF this, of w2 persona2 up2]
  show "import_otter_export w2 persona2 up2 (recordings ?r1, segment_rows ?r1) files
        = \<lparr>recordings = recordings ?r1, segment_rows = segment_rows ?r1,
           upload_calls = [], imported = 0, skipped = length files, errors = 0\<rparr>"
    by simp
qed

theorem already_imported_is_skipped_witness:
  "imported (import_otter_export sample_world None True ([], []) sample_files)
     = length sample_files
   \<and> (\<exists>r\<in>set (recordings (import_otter_export sample_world None True ([], []) sample_files)).
         original_filename r = py_stem ''sync.docx'' @ ''.mp3'')
   \<and> import_one sample_world None True
        (import_otter_export sample_world None True ([], []) sample_files) ''sync.docx''
      = (import_otter_export sample_world None True ([], []) sample_files)
          \<lparr>skipped := skipped (import_otter_export sample_world None True ([], []) sample_files) + 1\<rparr>
   \<and> import_otter_export sample_world None True
        (recordings (import_otter_export sample_world None True ([], []) sample_files),
         segment_rows (import_otter_export sample_world None True ([], []) sample_files))
        sample_files
      = \<lparr>recordings = recordings (import_otter_export sample_world None True ([], []) sample_files),
         segment_rows = segment_rows (import_otter_export sample_world None True ([], []) sample_files),
         upload_calls = [], imported = 0, skipped = length sample_files, errors = 0\<rparr>"
proof -
  let ?r1 = "import_otter_export sample_world None True ([], []) sample_files"
  have "''sync.docx'' \<in> set sample_files" by (simp add: sample_files_def)
  with first_run_records [OF sample_first_run]
  have r: "\<exists>r\<in>set (recordings ?r1). original_filename r = py_stem ''sync.docx'' @ ''.mp3''"
    by blast
  from already_imported_is_skipped [where st = ?r1 and f = "''sync.docx''"
      and files = sample_files and db = "([], [])"
      and w = sample_world and persona = None and up = True
      and ?w2.0 = sample_world and ?persona2.0 = None and ?up2.0 = True] sample_first_run r
  show ?thesis by blast
qed

text \<open>
  C9. The key of \<open>import_otter_export\<close> has the claimed form for every stem
  (\<open>otter_key_form\<close>), and so has the key of \<open>batch_upload\<close> for every file name in which
  \<open>pathlib\<close> finds a suffix (\<open>batch_key_with_suffix\<close>). For the video file named
  \<open>.mp4\<close>, which the search for \<open>*.mp4\<close> finds, the two halves of the key disagree: its
  stem is the whole name, but the key is built from the text before the last dot, which
  is empty, and from the suffix, which is empty too.
\<close>

theorem dotfile_key_loses_name:
  "py_stem ''.mp4'' = ''.mp4'' \<and> sanitize (py_stem ''.mp4'') = ''.mp4''
   \<and> batch_s3_key ''.mp4'' md5_hex = ''videos/_'' @ take 8 md5_hex @ ''.''"
proof -
  have "sanitize ''.mp4'' = ''.mp4''" by code_simp
  with stem_dotfile batch_key_dotfile [of md5_hex] show ?thesis by simp
qed

text \<open>
  C10. Every segment of a parsed transcript has non-empty text. A timestamp line met
  while no text has been gathered since the previous timestamp line saves no segment and
  leaves the segment index as it is, and so does the end of the input.
\<close>

theorem empty_segments_dropped:
  "(parse_otter_docx stem doc = Inr (Some t) \<longrightarrow> (\<forall>seg\<in>set (segments t). seg_text seg \<noteq> []))
   \<and> (re_match timestamp_pattern para \<noteq> None \<and> current_text s = [] \<longrightarrow>
        (\<exists>s'. scan_step s para = Inr s' \<and> saved s' = saved s \<and> next_index s' = next_index s))
   \<and> (current_text s = [] \<longrightarrow> last_segment s = saved s)"
proof (intro conjI impI)
  assume "parse_otter_docx stem doc = Inr (Some t)"
  then show "\<forall>seg\<in>set (segments t). seg_text seg \<noteq> []" by (rule parse_texts)
next
  assume a: "re_match timestamp_pattern para \<noteq> None \<and> current_text s = []"
  from scan_step_total obtain s' where s': "scan_step s para = Inr s'" by blast
  from a have "pending s = None" by (simp add: pending_None_iff)
  then have "save_previous s = s" by (simp add: save_previous_def)
  with scan_step_cases [OF s'] a s'
  show "\<exists>s'. scan_step s para = Inr s' \<and> saved s' = saved s \<and> next_index s' = next_index s"
    by auto
next
  assume "current_text s = []"
  then have "pending s = None" by (simp add: pending_None_iff)
  then show "last_segment s = saved s" by (simp add: last_segment_def)
qed

theorem empty_segments_dropped_witness:
  "parse_otter_docx ''a'' sample_doc = Inr (Some sample_transcript)
   \<and> list_all (\<lambda>seg. seg_text seg \<noteq> []) (segments sample_transcript)
   \<and> re_match timestamp_pattern ''1:10'' \<noteq> None \<and> current_text awaiting_text = []
   \<and> (\<exists>s'. scan_step awaiting_text ''1:10'' = Inr s' \<and> saved s' = saved awaiting_text
            \<and> next_index s' = next_index awaiting_text)
   \<and> last_segment awaiting_text = saved awaiting_text"
proof -
  have m: "re_match timestamp_pattern ''1:10'' \<noteq> None" by code_simp
  have e: "current_text awaiting_text = []" by (simp add: awaiting_text_def)
  from empty_segments_dropped [of "''a''" sample_doc sample_transcript "''1:10''" awaiting_text]
       sample_parse m e
  show ?thesis by (simp add: list_all_iff)
qed

end
